theory Spec2Isabelle
  imports Complex_Main "HOL-Library.AList" "HOL-Library.Log_Nat" "HOL-Library.Word"
begin

section \<open>Data model\<close>

text \<open>
  The classifier's output, as \<open>DefectDetector.predict\<close> builds it. The inspector reads
  only \<open>label\<close> and \<open>confidence\<close>. JavaScript numbers are IEEE doubles: a confidence is
  the real value of a finite double, and the sums and the quotient that the aggregation
  computes from confidences are rounded as the program rounds them (section
  \<open>Double arithmetic\<close>). The sign of a zero is not represented.
\<close>

record prediction =
  label :: string
  confidence :: real

text \<open>
  A JavaScript number as the aggregation produces it: a finite double, an infinity (a sum
  of finite doubles can overflow), or \<open>NaN\<close> (the quotient computed at the end of
  \<open>_getAggregatedResult\<close> is \<open>NaN\<close> when its operands are \<open>undefined\<close>).
\<close>

datatype jsnum = Num real | PosInf | NegInf | NaN

text \<open>The object literal returned by \<open>_getAggregatedResult\<close> and \<open>manualInspect\<close>.\<close>

record verdict =
  res_label :: string
  res_confidence :: jsnum
  isDefective :: bool
  defectType :: "string option"
  status :: string

text \<open>The object returned by \<open>CameraManager.detectProductPresence\<close>.\<close>

record presence =
  present :: bool
  justEntered :: bool
  justLeft :: bool

text \<open>The object returned by \<open>Inspector.processFrame\<close>; an absent \<open>finalResult\<close> is \<open>None\<close>.\<close>

record outcome =
  stateChanged :: bool
  inspectionComplete :: bool
  currentResult :: "verdict option"
  finalResult :: "verdict option"

datatype istate = Idle | Inspecting | Complete

record inspection =
  startTime :: int
  insp_predictions :: "prediction list"
  thumbnail :: "string option"

record stats =
  total :: nat
  ok :: nat
  defective :: nat
  defectRate :: string
  categories :: "(string \<times> nat) list"

text \<open>The fields of class \<open>Inspector\<close> (the leading underscores of the source dropped).\<close>

record inspector =
  state :: istate
  currentInspection :: "inspection option"
  predictions :: "prediction list"
  inspector_stats :: stats
  predictionBuffer :: "prediction list"
  bufferSize :: nat
  minConfidence :: real

definition inspector_constructor :: inspector where
  "inspector_constructor =
     \<lparr>state = Idle, currentInspection = None, predictions = [],
      inspector_stats = \<lparr>total = 0, ok = 0, defective = 0, defectRate = ''0.0'', categories = []\<rparr>,
      predictionBuffer = [], bufferSize = 8, minConfidence = 0.4\<rparr>"

section \<open>Double arithmetic\<close>

text \<open>
  The operators \<open>+\<close> and \<open>/\<close> of the program work on IEEE 754 doubles: the exact result
  is rounded to the nearest double, a tie going to the double whose significand is even.
  A double has a significand of 53 bits; in the binade \<open>2^e \<le> |x| < 2^(e+1)\<close> the doubles
  are the multiples of \<open>2^(e - 52)\<close>, and below \<open>2^(- 1022)\<close> (the subnormal range) the
  multiples of \<open>2^(- 1074)\<close>. A result that rounds to \<open>2^1024\<close> or beyond is an infinity.

  \<open>exponent_of x\<close> is the \<open>e\<close> of the binade of \<open>x\<close>, computed from the length in bits of
  an integer (lemma \<open>exponent_of_log\<close>: it is the floor of the binary logarithm of \<open>|x|\<close>).
\<close>

definition exponent_of :: "real \<Rightarrow> int" where
  "exponent_of x =
     (if 1 \<le> \<bar>x\<bar> then bitlen \<lfloor>\<bar>x\<bar>\<rfloor> - 1 else - bitlen (\<lceil>1 / \<bar>x\<bar>\<rceil> - 1))"

definition round_half_even :: "real \<Rightarrow> int" where
  "round_half_even q =
     (let n = \<lfloor>q\<rfloor>
      in if q - of_int n < 1 / 2 then n
         else if 1 / 2 < q - of_int n then n + 1
         else if even n then n else n + 1)"

definition ulp_exponent :: "real \<Rightarrow> int" where
  "ulp_exponent x = max (exponent_of x) (- 1022) - 52"

text \<open>The double nearest to a real, before the check for overflow.\<close>

definition nearest :: "real \<Rightarrow> real" where
  "nearest x =
     (if x = 0 then 0
      else of_int (round_half_even (x / 2 powi ulp_exponent x)) * 2 powi ulp_exponent x)"

definition to_double :: "real \<Rightarrow> jsnum" where
  "to_double x =
     (let r = nearest x
      in if 2 ^ 1024 \<le> r then PosInf else if r \<le> - (2 ^ 1024) then NegInf else Num r)"

text \<open>
  \<open>a + x\<close> and \<open>a / n\<close> for a number \<open>a\<close>, a finite \<open>x\<close> and a positive count \<open>n\<close>; and
  \<open>a || 0\<close>, which replaces the falsy numbers \<open>0\<close> and \<open>NaN\<close> by \<open>0\<close>.
\<close>

definition js_add :: "jsnum \<Rightarrow> real \<Rightarrow> jsnum" where
  "js_add a x =
     (case a of Num r \<Rightarrow> to_double (r + x) | PosInf \<Rightarrow> PosInf | NegInf \<Rightarrow> NegInf | NaN \<Rightarrow> NaN)"

definition js_div :: "jsnum \<Rightarrow> nat \<Rightarrow> jsnum" where
  "js_div a n =
     (case a of Num r \<Rightarrow> to_double (r / real n) | PosInf \<Rightarrow> PosInf | NegInf \<Rightarrow> NegInf
      | NaN \<Rightarrow> NaN)"

definition or_zero :: "jsnum \<Rightarrow> jsnum" where
  "or_zero a = (case a of NaN \<Rightarrow> Num 0 | _ \<Rightarrow> a)"

section \<open>Plain objects used as dictionaries\<close>

text \<open>
  \<open>votes\<close> and \<open>confidenceSums\<close> are object literals \<open>{}\<close>. Such an object is modelled by
  the list of its own properties in creation order. Two facts of JavaScript objects matter
  to the aggregation and are modelled here.

  \<^item> A read \<open>obj[k]\<close> of a key that is not an own property goes to \<open>Object.prototype\<close>.
    For the names in \<open>inherited\<close> it finds a function (or, for \<open>__proto__\<close>, the prototype
    object), which is truthy, so \<open>(obj[k] || 0) + x\<close> is a string concatenation. The
    result is a string that is no numeral: \<open>NonNumeric\<close>. The write back creates an own
    property, except for \<open>__proto__\<close>, whose setter ignores a string.
  \<^item> \<open>Object.entries\<close> lists the own properties whose keys are array indices (canonical
    decimal numerals below \<open>2^32 - 1 = 4294967295\<close>) first, in ascending numeric order, and then the
    other keys in creation order.
\<close>

datatype 'a slot = Number 'a | NonNumeric

definition inherited :: "string list" where
  "inherited =
     [''constructor'', ''__defineGetter__'', ''__defineSetter__'', ''hasOwnProperty'',
      ''__lookupGetter__'', ''__lookupSetter__'', ''isPrototypeOf'', ''propertyIsEnumerable'',
      ''toString'', ''valueOf'', ''__proto__'', ''toLocaleString'']"

text \<open>
  \<open>inherited\<close> lists the property names of \<open>Object.prototype\<close> in ECMAScript, those of its
  Annex B included.

  The statement \<open>obj[k] = (obj[k] || 0) + x\<close>, for the addition \<open>op\<close> of the numbers
  that the object holds: \<open>op n x\<close> is \<open>(n || 0) + x\<close> for an own number \<open>n\<close>, and
  \<open>op z x\<close> is \<open>0 + x\<close>. An own string stays a string; a key that is not an own
  property reads the inherited value if there is one, and \<open>undefined\<close> otherwise, which
  gives \<open>0 + x\<close>. An assignment to an existing own property keeps its place in the
  creation order, a new property is created last: \<open>AList.update\<close>.
\<close>

definition add_to_slot :: "('a \<Rightarrow> 'b \<Rightarrow> 'a) \<Rightarrow> 'a \<Rightarrow> (string \<times> 'a slot) list \<Rightarrow> string \<Rightarrow> 'b
    \<Rightarrow> (string \<times> 'a slot) list" where
  "add_to_slot op z obj k x =
     (case map_of obj k of
        Some (Number n) \<Rightarrow> AList.update k (Number (op n x)) obj
      | Some NonNumeric \<Rightarrow> AList.update k NonNumeric obj
      | None \<Rightarrow>
          if k = ''__proto__'' then obj
          else if k \<in> set inherited then AList.update k NonNumeric obj
          else AList.update k (Number (op z x)) obj)"

definition index_value :: "string \<Rightarrow> nat" where
  "index_value k = foldl (\<lambda>n c. 10 * n + (of_char c - 48)) 0 k"

definition is_array_index :: "string \<Rightarrow> bool" where
  "is_array_index k =
     (k \<noteq> [] \<and> list_all (\<lambda>c. c \<in> set ''0123456789'') k \<and>
      (k = ''0'' \<or> hd k \<noteq> CHR ''0'') \<and> index_value k < 4294967295)"

definition key_order :: "string list \<Rightarrow> string list" where
  "key_order ks =
     sort_key index_value (filter is_array_index ks) @ filter (\<lambda>k. \<not> is_array_index k) ks"

definition js_entries :: "(string \<times> 'a) list \<Rightarrow> (string \<times> 'a) list" where
  "js_entries obj =
     sort_key (\<lambda>e. index_value (fst e)) (filter (\<lambda>e. is_array_index (fst e)) obj)
       @ filter (\<lambda>e. \<not> is_array_index (fst e)) obj"

section \<open>Inspector\<close>

text \<open>
  The first loop of \<open>_getAggregatedResult\<close>: the tallies of votes and of confidence. A
  vote count is a natural number (counting in doubles is exact below \<open>2^53\<close>); a sum of
  confidences is a double, and every addition to it is rounded.
\<close>

definition add_confidence :: "jsnum \<Rightarrow> real \<Rightarrow> jsnum" where
  "add_confidence a x = js_add (or_zero a) x"

text \<open>
  The read \<open>p.confidence\<close> yields a double. A real that is no double stands for the double
  nearest to it, the one that the program holds when the value is written as a decimal
  literal such as \<open>0.1\<close>; a double stands for itself.
\<close>

definition read_confidence :: "prediction \<Rightarrow> real" where
  "read_confidence p = nearest (confidence p)"

fun tally :: "prediction list \<Rightarrow> (string \<times> nat slot) list \<Rightarrow> (string \<times> jsnum slot) list
    \<Rightarrow> (string \<times> nat slot) list \<times> (string \<times> jsnum slot) list" where
  "tally [] votes confidenceSums = (votes, confidenceSums)"
| "tally (p # ps) votes confidenceSums =
     tally ps (add_to_slot (+) 0 votes (label p) 1)
       (add_to_slot add_confidence (Num 0) confidenceSums (label p) (read_confidence p))"

text \<open>
  The second loop: \<open>count > bestVotes\<close> is false for a string that is no numeral, since
  the comparison converts it to \<open>NaN\<close>.
\<close>

fun find_best :: "(string \<times> nat slot) list \<Rightarrow> string \<Rightarrow> nat \<Rightarrow> string \<times> nat" where
  "find_best [] bestLabel bestVotes = (bestLabel, bestVotes)"
| "find_best ((l, Number n) # es) bestLabel bestVotes =
     (if n > bestVotes then find_best es l n else find_best es bestLabel bestVotes)"
| "find_best ((l, NonNumeric) # es) bestLabel bestVotes = find_best es bestLabel bestVotes"

text \<open>
  \<open>confidenceSums[bestLabel] / votes[bestLabel]\<close>: the rounded quotient of two numbers, or
  \<open>NaN\<close> when an operand is \<open>undefined\<close> or a string that is no numeral. \<open>bestLabel\<close> is
  either a key whose own vote is a number or the initial \<open>ok\<close>, which is no inherited
  name, so both reads are reads of own properties. A stored vote count is never zero
  (lemma \<open>tally_votes_positive\<close>).

  \<open>make_verdict\<close> is the object literal that \<open>_getAggregatedResult\<close> and \<open>manualInspect\<close>
  both return, for a label and a confidence.
\<close>

definition quotient :: "jsnum slot option \<Rightarrow> nat slot option \<Rightarrow> jsnum" where
  "quotient a b =
     (case (a, b) of
        (Some (Number x), Some (Number n)) \<Rightarrow> js_div x n
      | _ \<Rightarrow> NaN)"

definition make_verdict :: "string \<Rightarrow> jsnum \<Rightarrow> verdict" where
  "make_verdict l c =
     \<lparr>res_label = l, res_confidence = c, isDefective = (l \<noteq> ''ok''),
      defectType = (if l \<noteq> ''ok'' then Some l else None),
      status = (if l = ''ok'' then ''ok'' else ''defective'')\<rparr>"

definition aggregate :: "prediction list \<Rightarrow> verdict option" where
  "aggregate buf =
     (if length buf = 0 then None
      else
        let (votes, confidenceSums) = tally buf [] [];
            (bestLabel, bestVotes) = find_best (js_entries votes) ''ok'' 0;
            avgConfidence = quotient (map_of confidenceSums bestLabel) (map_of votes bestLabel)
        in Some (make_verdict bestLabel avgConfidence))"

definition getAggregatedResult :: "inspector \<Rightarrow> verdict option" where
  "getAggregatedResult this = aggregate (predictionBuffer this)"

text \<open>
  \<open>processFrame\<close> is three consecutive \<open>if\<close> statements; each is a function from the
  result under construction and the inspector to the same pair. \<open>Date.now()\<close> is the
  parameter \<open>now\<close>.
\<close>

definition on_entered :: "int \<Rightarrow> presence \<Rightarrow> outcome \<times> inspector \<Rightarrow> outcome \<times> inspector" where
  "on_entered now presenceInfo = (\<lambda>(result, this).
     if justEntered presenceInfo then
       (result\<lparr>stateChanged := True\<rparr>,
        this\<lparr>state := Inspecting,
             currentInspection := Some \<lparr>startTime = now, insp_predictions = [], thumbnail = None\<rparr>,
             predictionBuffer := []\<rparr>)
     else (result, this))"

definition push_prediction :: "prediction \<Rightarrow> inspector \<Rightarrow> inspector" where
  "push_prediction p this =
     (let this = this\<lparr>predictionBuffer := predictionBuffer this @ [p]\<rparr>
      in if length (predictionBuffer this) > bufferSize this
         then this\<lparr>predictionBuffer := tl (predictionBuffer this)\<rparr>
         else this)"

definition on_prediction :: "prediction option \<Rightarrow> outcome \<times> inspector \<Rightarrow> outcome \<times> inspector" where
  "on_prediction prediction = (\<lambda>(result, this).
     case prediction of
       None \<Rightarrow> (result, this)
     | Some p \<Rightarrow>
         if state this = Inspecting then
           (let this = push_prediction p this
            in (result\<lparr>currentResult := getAggregatedResult this\<rparr>, this))
         else (result, this))"

definition on_left :: "presence \<Rightarrow> outcome \<times> inspector \<Rightarrow> outcome \<times> inspector" where
  "on_left presenceInfo = (\<lambda>(result, this).
     if justLeft presenceInfo \<and> state this = Inspecting then
       (result\<lparr>inspectionComplete := True, finalResult := getAggregatedResult this,
               stateChanged := True\<rparr>,
        this\<lparr>state := Idle, currentInspection := None, predictionBuffer := []\<rparr>)
     else (result, this))"

definition processFrame :: "inspector \<Rightarrow> int \<Rightarrow> prediction option \<Rightarrow> presence \<Rightarrow> outcome \<times> inspector" where
  "processFrame this now prediction presenceInfo =
     on_left presenceInfo
       (on_prediction prediction
         (on_entered now presenceInfo
           (\<lparr>stateChanged = False, inspectionComplete = False,
             currentResult = None, finalResult = None\<rparr>, this)))"

text \<open>\<open>manualInspect\<close> reads its argument only; the inspector is returned as it was.\<close>

definition manualInspect :: "inspector \<Rightarrow> prediction option \<Rightarrow> verdict option \<times> inspector" where
  "manualInspect this prediction =
     (case prediction of
        None \<Rightarrow> (None, this)
      | Some p \<Rightarrow> (Some (make_verdict (label p) (Num (confidence p))), this))"

text \<open>A sequence of calls: the outcomes in order, and the inspector after the last call.\<close>

fun process_frames :: "inspector \<Rightarrow> (int \<times> prediction option \<times> presence) list \<Rightarrow> outcome list \<times> inspector" where
  "process_frames this [] = ([], this)"
| "process_frames this ((now, prediction, presenceInfo) # calls) =
     (let (result, this') = processFrame this now prediction presenceInfo;
          (results, final) = process_frames this' calls
      in (result # results, final))"

section \<open>Presence detection\<close>

text \<open>
  The pixel data of a frame is a \<open>Uint8ClampedArray\<close>: a list of bytes, four per pixel.
  A read past the end of the array is \<open>undefined\<close>, here \<open>None\<close>; arithmetic on it is
  \<open>NaN\<close>, and a comparison with \<open>NaN\<close> is false.
\<close>

type_synonym frame = "8 word list"

definition channel :: "frame \<Rightarrow> nat \<Rightarrow> int option" where
  "channel data i = (if i < length data then Some (uint (data ! i)) else None)"

text \<open>\<open>Math.abs(curr[i] - prev[i])\<close>.\<close>

definition abs_diff :: "int option \<Rightarrow> int option \<Rightarrow> int option" where
  "abs_diff a b = (case (a, b) of (Some x, Some y) \<Rightarrow> Some \<bar>x - y\<bar> | _ \<Rightarrow> None)"

text \<open>The body of the sampling loop: \<open>(dr + dg + db) / 3 > this._motionThreshold\<close>.\<close>

definition pixel_changed :: "real \<Rightarrow> frame \<Rightarrow> frame \<Rightarrow> nat \<Rightarrow> bool" where
  "pixel_changed threshold cur prev i =
     (case (abs_diff (channel cur i) (channel prev i),
            abs_diff (channel cur (i + 1)) (channel prev (i + 1)),
            abs_diff (channel cur (i + 2)) (channel prev (i + 2))) of
        (Some dr, Some dg, Some db) \<Rightarrow> real_of_int (dr + dg + db) / 3 > threshold
      | _ \<Rightarrow> False)"

text \<open>The loop \<open>for (let i = 0; i < curr.length; i += 16)\<close>, from index \<open>i\<close> on.\<close>

function count_changed :: "real \<Rightarrow> frame \<Rightarrow> frame \<Rightarrow> nat \<Rightarrow> nat \<Rightarrow> nat" where
  "count_changed threshold cur prev i changedPixels =
     (if i < length cur
      then count_changed threshold cur prev (i + 16)
             (if pixel_changed threshold cur prev i then changedPixels + 1 else changedPixels)
      else changedPixels)"
  by pat_completeness auto
termination
  by (relation "measure (\<lambda>(threshold, cur, prev, i, changedPixels). length cur - i)") auto

declare count_changed.simps [simp del]

text \<open>
  The fields of class \<open>CameraManager\<close> that \<open>detectProductPresence\<close> reads or writes. The
  video element, the overlay canvas and the stream are handles of the browser; what the
  method takes from them is its input here: \<open>video.readyState\<close> and the pixel data that
  \<open>getImageData\<close> returns for the frame drawn at 160 by 120.
\<close>

record camera =
  isActive :: bool
  prevFrame :: "frame option"
  motionThreshold :: real
  presenceThreshold :: real
  exitFrameCount :: nat
  exitFrameRequired :: nat
  productPresent :: bool

definition camera_constructor :: camera where
  "camera_constructor =
     \<lparr>isActive = False, prevFrame = None, motionThreshold = 25, presenceThreshold = 0.02,
      exitFrameCount = 0, exitFrameRequired = 15, productPresent = False\<rparr>"

definition has_motion :: "camera \<Rightarrow> frame \<Rightarrow> frame \<Rightarrow> bool" where
  "has_motion this cur prev =
     (let changedPixels = count_changed (motionThreshold this) cur prev 0 0;
          totalPixels = 160 * 120;
          motionRatio = real changedPixels / (real totalPixels / 4)
      in motionRatio > presenceThreshold this)"

text \<open>The hysteresis: the statement \<open>if (hasMotion) { ... } else { ... }\<close>.\<close>

definition debounce :: "bool \<Rightarrow> presence \<times> camera \<Rightarrow> presence \<times> camera" where
  "debounce hasMotion = (\<lambda>(result, this).
     if hasMotion then
       (let this = this\<lparr>exitFrameCount := 0\<rparr>;
            (result, this) =
              (if \<not> productPresent this
               then (result\<lparr>justEntered := True\<rparr>, this\<lparr>productPresent := True\<rparr>)
               else (result, this))
        in (result\<lparr>present := True\<rparr>, this))
     else if productPresent this then
       (let this = this\<lparr>exitFrameCount := exitFrameCount this + 1\<rparr>
        in if exitFrameCount this \<ge> exitFrameRequired this
           then (result\<lparr>justLeft := True\<rparr>, this\<lparr>productPresent := False\<rparr>)
           else (result\<lparr>present := True\<rparr>, this))
     else (result, this))"

definition detectProductPresence :: "camera \<Rightarrow> nat \<Rightarrow> frame \<Rightarrow> presence \<times> camera" where
  "detectProductPresence this readyState currentFrame =
     (if \<not> isActive this \<or> readyState < 2
      then (\<lparr>present = False, justEntered = False, justLeft = False\<rparr>, this)
      else
        let result = \<lparr>present = False, justEntered = False, justLeft = False\<rparr>;
            (result, this) =
              (case prevFrame this of
                 None \<Rightarrow> (result, this)
               | Some prev \<Rightarrow> debounce (has_motion this currentFrame prev) (result, this))
        in (result, this\<lparr>prevFrame := Some currentFrame\<rparr>))"

text \<open>A sequence of calls: the signals in order, and the detector after the last call.\<close>

fun detect_frames :: "camera \<Rightarrow> (nat \<times> frame) list \<Rightarrow> presence list \<times> camera" where
  "detect_frames this [] = ([], this)"
| "detect_frames this ((readyState, currentFrame) # calls) =
     (let (result, this') = detectProductPresence this readyState currentFrame;
          (results, final) = detect_frames this' calls
      in (result # results, final))"

text \<open>
  A run of no-motion calls: each call evaluates the frame difference (the camera is
  active and ready, a previous frame is stored) and finds no motion.
\<close>

fun no_motion_calls :: "camera \<Rightarrow> (nat \<times> frame) list \<Rightarrow> bool" where
  "no_motion_calls this [] = True"
| "no_motion_calls this ((readyState, currentFrame) # calls) =
     (isActive this \<and> 2 \<le> readyState \<and>
      (case prevFrame this of
         None \<Rightarrow> False
       | Some prev \<Rightarrow> \<not> has_motion this currentFrame prev) \<and>
      no_motion_calls (snd (detectProductPresence this readyState currentFrame)) calls)"

text \<open>
  Two kinds of call used to describe an inspection: the call on which the product enters
  (no sample, \<open>justEntered\<close> set), and a call that delivers a sample with no presence edge.
\<close>

definition entry_call :: "int \<Rightarrow> bool \<Rightarrow> int \<times> prediction option \<times> presence" where
  "entry_call now pr = (now, None, \<lparr>present = pr, justEntered = True, justLeft = False\<rparr>)"

definition sample_call :: "int \<times> prediction \<times> bool \<Rightarrow> int \<times> prediction option \<times> presence" where
  "sample_call = (\<lambda>(now, p, pr). (now, Some p, \<lparr>present = pr, justEntered = False, justLeft = False\<rparr>))"

text \<open>
  The signal expected of the \<open>n\<close>-th consecutive no-motion call after presence, for a
  debounce count \<open>required\<close>: still present before the count is reached, \<open>justLeft\<close> when
  it is reached, absent afterwards. \<open>absent\<close> is the signal with all three flags false.
\<close>

definition exit_signal :: "nat \<Rightarrow> nat \<Rightarrow> presence" where
  "exit_signal required n =
     (if n < required then \<lparr>present = True, justEntered = False, justLeft = False\<rparr>
      else if n = required then \<lparr>present = False, justEntered = False, justLeft = True\<rparr>
      else \<lparr>present = False, justEntered = False, justLeft = False\<rparr>)"

definition absent :: presence where
  "absent = \<lparr>present = False, justEntered = False, justLeft = False\<rparr>"

text \<open>
  The aggregation as the specification words it, to compare with \<open>aggregate\<close>: the votes
  for a label are the samples that bear it; the mean confidence of a label is taken over
  exactly those samples, in double arithmetic: their confidences are added to 0 in buffer
  order, each sum rounded, and the total is divided by their number, the quotient rounded;
  \<open>first_seen\<close> lists the labels once each in the order of their first occurrence in the
  buffer (\<open>remdups\<close> keeps the last occurrence of each element, so it is applied to the
  reversed list); the winner is the first label, in the order in which \<open>Object.entries\<close>
  lists the labels, whose vote count no label exceeds.
\<close>

definition votes_for :: "string \<Rightarrow> prediction list \<Rightarrow> nat" where
  "votes_for l buf = length (filter (\<lambda>p. label p = l) buf)"

definition confidence_sum :: "string \<Rightarrow> prediction list \<Rightarrow> jsnum" where
  "confidence_sum l buf =
     foldl js_add (Num 0) (map read_confidence (filter (\<lambda>p. label p = l) buf))"

definition mean_confidence :: "string \<Rightarrow> prediction list \<Rightarrow> jsnum" where
  "mean_confidence l buf = js_div (confidence_sum l buf) (votes_for l buf)"

definition first_seen :: "string list \<Rightarrow> string list" where
  "first_seen ls = rev (remdups (rev ls))"

definition winner :: "prediction list \<Rightarrow> string option" where
  "winner buf =
     (let ks = key_order (first_seen (map label buf))
      in find (\<lambda>l. list_all (\<lambda>l'. votes_for l' buf \<le> votes_for l buf) ks) ks)"

section \<open>Aggregation of an empty buffer\<close>

lemma aggregate_Nil: "aggregate [] = None"
  by (simp add: aggregate_def)

lemma aggregate_nonempty: "buf \<noteq> [] \<Longrightarrow> aggregate buf \<noteq> None"
  by (simp add: aggregate_def split: prod.splits)

text \<open>
  Claim C6. Aggregation applied to an empty prediction buffer returns null (no verdict),
  whatever the rest of the inspector's state is. The method has no \<open>throw\<close> and, on an
  empty buffer, returns at its first statement, so the model has no error result.
\<close>

theorem empty_buffer_no_verdict:
  "predictionBuffer this = [] \<Longrightarrow> getAggregatedResult this = None"
  by (simp add: getAggregatedResult_def aggregate_def)

theorem empty_buffer_no_verdict_witness:
  "predictionBuffer inspector_constructor = [] \<and>
   getAggregatedResult inspector_constructor = None"
  using empty_buffer_no_verdict [of inspector_constructor]
  by (simp add: inspector_constructor_def)

section \<open>Manual inspection\<close>

text \<open>
  Claim C8. For every sample \<open>s\<close> and every inspector, \<open>manualInspect(s)\<close> returns the
  verdict built from \<open>s\<close> alone: its label and confidence are those of \<open>s\<close>, it is
  defective exactly when the label is not \<open>ok\<close>, the defect type is the label then and null
  otherwise, the status is \<open>ok\<close> or \<open>defective\<close> accordingly; and the inspector (state,
  prediction buffer and every other field) is as before the call.
\<close>

theorem manualInspect_single_sample:
  "manualInspect this (Some s) =
     (Some \<lparr>res_label = label s, res_confidence = Num (confidence s),
            isDefective = (label s \<noteq> ''ok''),
            defectType = (if label s \<noteq> ''ok'' then Some (label s) else None),
            status = (if label s = ''ok'' then ''ok'' else ''defective'')\<rparr>, this)"
  by (simp add: manualInspect_def make_verdict_def)

section \<open>Presence edges\<close>

text \<open>
  Claim C9. For every detector state and every input of a single call to
  \<open>detectProductPresence\<close>, the returned signal never has \<open>justEntered\<close> and \<open>justLeft\<close>
  both true.
\<close>

theorem edges_exclusive:
  "\<not> (justEntered (fst (detectProductPresence this readyState currentFrame)) \<and>
      justLeft (fst (detectProductPresence this readyState currentFrame)))"
  by (simp add: detectProductPresence_def debounce_def Let_def
      split: option.splits prod.splits if_splits)

theorem edges_exclusive_witness:
  "justLeft (fst (detectProductPresence
      (camera_constructor\<lparr>isActive := True, prevFrame := Some [], exitFrameCount := 14, productPresent := True\<rparr>)
      4 [])) \<and>
   \<not> justEntered (fst (detectProductPresence
      (camera_constructor\<lparr>isActive := True, prevFrame := Some [], exitFrameCount := 14, productPresent := True\<rparr>)
      4 []))"
  using edges_exclusive [of
      "camera_constructor\<lparr>isActive := True, prevFrame := Some [], exitFrameCount := 14, productPresent := True\<rparr>"
      4 "[]"]
  by (simp add: detectProductPresence_def debounce_def has_motion_def camera_constructor_def
      count_changed.simps)

section \<open>The prediction buffer\<close>

lemma processFrame_bufferSize:
  "bufferSize (snd (processFrame this now prediction presenceInfo)) = bufferSize this"
  by (simp add: processFrame_def on_entered_def on_prediction_def on_left_def
      push_prediction_def Let_def split: option.splits)

lemma push_prediction_buffer:
  "predictionBuffer (push_prediction p this) =
     (if length (predictionBuffer this) < bufferSize this then predictionBuffer this @ [p]
      else tl (predictionBuffer this @ [p]))"
  by (simp add: push_prediction_def Let_def)

lemma push_prediction_bounded:
  "length (predictionBuffer this) \<le> bufferSize this \<Longrightarrow>
   length (predictionBuffer (push_prediction p this)) \<le> bufferSize this"
  by (simp add: push_prediction_buffer)

lemma push_prediction_fields:
  "state (push_prediction p this) = state this"
  "bufferSize (push_prediction p this) = bufferSize this"
  by (simp_all add: push_prediction_def Let_def)

lemma processFrame_bounded:
  "length (predictionBuffer this) \<le> bufferSize this \<Longrightarrow>
   length (predictionBuffer (snd (processFrame this now prediction presenceInfo))) \<le> bufferSize this"
  using push_prediction_bounded [of "this\<lparr>state := Inspecting,
      currentInspection := Some \<lparr>startTime = now, insp_predictions = [], thumbnail = None\<rparr>,
      predictionBuffer := []\<rparr>"]
    push_prediction_bounded [of this]
  by (simp add: processFrame_def on_entered_def on_prediction_def on_left_def Let_def
      push_prediction_fields split: option.splits)

lemma process_frames_snd_Cons:
  "snd (process_frames this ((now, prediction, presenceInfo) # calls)) =
     snd (process_frames (snd (processFrame this now prediction presenceInfo)) calls)"
  by (simp add: case_prod_unfold Let_def)

lemma process_frames_bounded:
  "length (predictionBuffer this) \<le> bufferSize this \<Longrightarrow>
   length (predictionBuffer (snd (process_frames this calls))) \<le> bufferSize this \<and>
   bufferSize (snd (process_frames this calls)) = bufferSize this"
proof (induction calls arbitrary: this)
  case Nil
  then show ?case by simp
next
  case (Cons c calls)
  obtain now prediction presenceInfo where c: "c = (now, prediction, presenceInfo)"
    by (cases c) auto
  let ?next = "snd (processFrame this now prediction presenceInfo)"
  have "length (predictionBuffer ?next) \<le> bufferSize ?next"
    using Cons.prems by (simp add: processFrame_bounded processFrame_bufferSize)
  from Cons.IH [OF this] show ?case
    by (simp add: c processFrame_bufferSize process_frames_snd_Cons del: process_frames.simps)
qed

lemma process_frames_samples:
  "state this = Inspecting \<Longrightarrow> length (predictionBuffer this) \<le> bufferSize this \<Longrightarrow>
   predictionBuffer (snd (process_frames this (map sample_call xs))) =
     drop (length (predictionBuffer this) + length xs - bufferSize this)
       (predictionBuffer this @ map (\<lambda>c. fst (snd c)) xs)"
proof (induction xs arbitrary: this)
  case Nil
  then show ?case by simp
next
  case (Cons x xs)
  obtain now p pr where x: "x = (now, p, pr)"
    by (cases x) auto
  let ?next = "snd (processFrame this now (Some p) \<lparr>present = pr, justEntered = False, justLeft = False\<rparr>)"
  have st: "state ?next = Inspecting"
    using Cons.prems(1)
    by (simp add: processFrame_def on_entered_def on_prediction_def on_left_def push_prediction_def Let_def)
  have sz: "bufferSize ?next = bufferSize this"
    by (rule processFrame_bufferSize)
  have buf: "predictionBuffer ?next =
      (if length (predictionBuffer this) < bufferSize this then predictionBuffer this @ [p]
       else tl (predictionBuffer this @ [p]))"
    using Cons.prems(1)
    by (simp add: processFrame_def on_entered_def on_prediction_def on_left_def push_prediction_def Let_def)
  have len: "length (predictionBuffer ?next) \<le> bufferSize ?next"
    using Cons.prems(2) by (simp add: buf sz)
  have step: "predictionBuffer (snd (process_frames this (sample_call (now, p, pr) # map sample_call xs))) =
      predictionBuffer (snd (process_frames ?next (map sample_call xs)))"
    by (simp add: sample_call_def process_frames_snd_Cons del: process_frames.simps)
  show ?case
  proof (cases "length (predictionBuffer this) < bufferSize this")
    case True
    then show ?thesis
      using Cons.IH [OF st len] by (simp add: step buf sz x del: process_frames.simps)
  next
    case False
    then have full: "length (predictionBuffer this) = bufferSize this"
      using Cons.prems(2) by simp
    have shift: "tl (predictionBuffer this @ [p]) @ map (\<lambda>c. fst (snd c)) xs =
        drop 1 (predictionBuffer this @ p # map (\<lambda>c. fst (snd c)) xs)"
      by (cases "predictionBuffer this") simp_all
    have "predictionBuffer (snd (process_frames ?next (map sample_call xs))) =
        drop (length xs) (tl (predictionBuffer this @ [p]) @ map (\<lambda>c. fst (snd c)) xs)"
      using Cons.IH [OF st len] full by (simp add: buf sz)
    also have "\<dots> = drop (Suc (length xs)) (predictionBuffer this @ p # map (\<lambda>c. fst (snd c)) xs)"
      by (simp only: shift drop_drop) simp
    finally show ?thesis
      using full by (simp add: step x del: process_frames.simps)
  qed
qed

text \<open>
  Claim C7. After every sequence of \<open>processFrame\<close> calls on a new inspector the buffer
  holds at most 8 samples. Eviction is first in, first out: after the entry call and any
  samples pushed during the inspection, the buffer holds the last \<open>bufferSize\<close> of them in
  insertion order; so 10 samples pushed into a new inspector leave the last 8.
\<close>

theorem buffer_bounded_fifo:
  "length (predictionBuffer (snd (process_frames inspector_constructor calls))) \<le> 8 \<and>
   predictionBuffer (snd (process_frames this (entry_call now pr # map sample_call xs))) =
     drop (length xs - bufferSize this) (map (\<lambda>c. fst (snd c)) xs) \<and>
   (length xs = 10 \<longrightarrow>
     predictionBuffer (snd (process_frames inspector_constructor (entry_call now pr # map sample_call xs))) =
       drop 2 (map (\<lambda>c. fst (snd c)) xs))"
proof -
  have a: "length (predictionBuffer (snd (process_frames inspector_constructor calls))) \<le> 8"
    using process_frames_bounded [of inspector_constructor calls]
    by (simp add: inspector_constructor_def)
  have b: "predictionBuffer (snd (process_frames this (entry_call now pr # map sample_call xs))) =
     drop (length xs - bufferSize this) (map (\<lambda>c. fst (snd c)) xs)" for this
  proof -
    let ?next = "this\<lparr>state := Inspecting,
             currentInspection := Some \<lparr>startTime = now, insp_predictions = [], thumbnail = None\<rparr>,
             predictionBuffer := []\<rparr>"
    have "snd (processFrame this now None \<lparr>present = pr, justEntered = True, justLeft = False\<rparr>) = ?next"
      by (simp add: processFrame_def on_entered_def on_prediction_def on_left_def)
    then have "predictionBuffer (snd (process_frames this (entry_call now pr # map sample_call xs))) =
        predictionBuffer (snd (process_frames ?next (map sample_call xs)))"
      by (simp add: entry_call_def process_frames_snd_Cons del: process_frames.simps)
    also have "\<dots> = drop (length xs - bufferSize this) (map (\<lambda>c. fst (snd c)) xs)"
      using process_frames_samples [of ?next xs] by simp
    finally show ?thesis .
  qed
  show ?thesis
    using a b [of this] b [of inspector_constructor]
    by (simp add: inspector_constructor_def)
qed

theorem buffer_bounded_fifo_witness:
  "predictionBuffer (snd (process_frames inspector_constructor
     (entry_call 0 True # map sample_call
        [(1, \<lparr>label = ''a'', confidence = 0.5\<rparr>, True), (2, \<lparr>label = ''b'', confidence = 0.5\<rparr>, True),
         (3, \<lparr>label = ''c'', confidence = 0.5\<rparr>, True), (4, \<lparr>label = ''d'', confidence = 0.5\<rparr>, True),
         (5, \<lparr>label = ''e'', confidence = 0.5\<rparr>, True), (6, \<lparr>label = ''f'', confidence = 0.5\<rparr>, True),
         (7, \<lparr>label = ''g'', confidence = 0.5\<rparr>, True), (8, \<lparr>label = ''h'', confidence = 0.5\<rparr>, True),
         (9, \<lparr>label = ''i'', confidence = 0.5\<rparr>, True), (10, \<lparr>label = ''j'', confidence = 0.5\<rparr>, True)]))) =
     [\<lparr>label = ''c'', confidence = 0.5\<rparr>, \<lparr>label = ''d'', confidence = 0.5\<rparr>,
      \<lparr>label = ''e'', confidence = 0.5\<rparr>, \<lparr>label = ''f'', confidence = 0.5\<rparr>,
      \<lparr>label = ''g'', confidence = 0.5\<rparr>, \<lparr>label = ''h'', confidence = 0.5\<rparr>,
      \<lparr>label = ''i'', confidence = 0.5\<rparr>, \<lparr>label = ''j'', confidence = 0.5\<rparr>]"
  using buffer_bounded_fifo [of "[]" inspector_constructor 0 True
        "[(1, \<lparr>label = ''a'', confidence = 0.5\<rparr>, True), (2, \<lparr>label = ''b'', confidence = 0.5\<rparr>, True),
         (3, \<lparr>label = ''c'', confidence = 0.5\<rparr>, True), (4, \<lparr>label = ''d'', confidence = 0.5\<rparr>, True),
         (5, \<lparr>label = ''e'', confidence = 0.5\<rparr>, True), (6, \<lparr>label = ''f'', confidence = 0.5\<rparr>, True),
         (7, \<lparr>label = ''g'', confidence = 0.5\<rparr>, True), (8, \<lparr>label = ''h'', confidence = 0.5\<rparr>, True),
         (9, \<lparr>label = ''i'', confidence = 0.5\<rparr>, True), (10, \<lparr>label = ''j'', confidence = 0.5\<rparr>, True)]"]
  by (simp del: process_frames.simps add: inspector_constructor_def)

section \<open>The inspection cycle\<close>

text \<open>
  Claim C1, amended. From any inspector whose capacity is at least 3 (a new one has 8), the
  five calls entry, three samples without a presence edge, exit give these outcomes:
  \<open>stateChanged\<close> is true on the entry call and on the exit call, and false on the three
  sample calls; each sample call returns the aggregate of the samples so far, which is not
  null; the exit call returns \<open>inspectionComplete\<close> and, as \<open>finalResult\<close>, the aggregate of
  the three samples, which is not null; afterwards the buffer is empty and the state is
  \<open>Idle\<close>.
\<close>

theorem inspection_cycle:
  assumes "3 \<le> bufferSize this"
    and "justEntered e" "\<not> justLeft e"
    and "\<not> justEntered m1" "\<not> justLeft m1"
    and "\<not> justEntered m2" "\<not> justLeft m2"
    and "\<not> justEntered m3" "\<not> justLeft m3"
    and "justLeft x" "\<not> justEntered x"
  shows "process_frames this
           [(t0, None, e), (t1, Some s1, m1), (t2, Some s2, m2), (t3, Some s3, m3), (t4, None, x)] =
         ([\<lparr>stateChanged = True, inspectionComplete = False, currentResult = None, finalResult = None\<rparr>,
           \<lparr>stateChanged = False, inspectionComplete = False, currentResult = aggregate [s1], finalResult = None\<rparr>,
           \<lparr>stateChanged = False, inspectionComplete = False, currentResult = aggregate [s1, s2], finalResult = None\<rparr>,
           \<lparr>stateChanged = False, inspectionComplete = False, currentResult = aggregate [s1, s2, s3], finalResult = None\<rparr>,
           \<lparr>stateChanged = True, inspectionComplete = True, currentResult = None, finalResult = aggregate [s1, s2, s3]\<rparr>],
          this\<lparr>state := Idle, currentInspection := None, predictionBuffer := []\<rparr>)
       \<and> aggregate [s1] \<noteq> None \<and> aggregate [s1, s2] \<noteq> None \<and> aggregate [s1, s2, s3] \<noteq> None"
  using assms
  by (simp add: processFrame_def on_entered_def on_prediction_def on_left_def
      getAggregatedResult_def push_prediction_def Let_def aggregate_nonempty)

theorem inspection_cycle_witness:
  "3 \<le> bufferSize inspector_constructor \<and>
   process_frames inspector_constructor
     [(0, None, \<lparr>present = True, justEntered = True, justLeft = False\<rparr>),
      (1, Some \<lparr>label = ''ok'', confidence = 0.9\<rparr>, \<lparr>present = True, justEntered = False, justLeft = False\<rparr>),
      (2, Some \<lparr>label = ''scratch'', confidence = 0.8\<rparr>, \<lparr>present = True, justEntered = False, justLeft = False\<rparr>),
      (3, Some \<lparr>label = ''scratch'', confidence = 0.7\<rparr>, \<lparr>present = True, justEntered = False, justLeft = False\<rparr>),
      (4, None, \<lparr>present = False, justEntered = False, justLeft = True\<rparr>)] =
   ([\<lparr>stateChanged = True, inspectionComplete = False, currentResult = None, finalResult = None\<rparr>,
     \<lparr>stateChanged = False, inspectionComplete = False,
       currentResult = aggregate [\<lparr>label = ''ok'', confidence = 0.9\<rparr>], finalResult = None\<rparr>,
     \<lparr>stateChanged = False, inspectionComplete = False,
       currentResult = aggregate [\<lparr>label = ''ok'', confidence = 0.9\<rparr>, \<lparr>label = ''scratch'', confidence = 0.8\<rparr>],
       finalResult = None\<rparr>,
     \<lparr>stateChanged = False, inspectionComplete = False,
       currentResult = aggregate [\<lparr>label = ''ok'', confidence = 0.9\<rparr>, \<lparr>label = ''scratch'', confidence = 0.8\<rparr>,
         \<lparr>label = ''scratch'', confidence = 0.7\<rparr>],
       finalResult = None\<rparr>,
     \<lparr>stateChanged = True, inspectionComplete = True, currentResult = None,
       finalResult = aggregate [\<lparr>label = ''ok'', confidence = 0.9\<rparr>, \<lparr>label = ''scratch'', confidence = 0.8\<rparr>,
         \<lparr>label = ''scratch'', confidence = 0.7\<rparr>]\<rparr>],
    inspector_constructor)"
  using inspection_cycle [of inspector_constructor
      "\<lparr>present = True, justEntered = True, justLeft = False\<rparr>"
      "\<lparr>present = True, justEntered = False, justLeft = False\<rparr>"
      "\<lparr>present = True, justEntered = False, justLeft = False\<rparr>"
      "\<lparr>present = True, justEntered = False, justLeft = False\<rparr>"
      "\<lparr>present = False, justEntered = False, justLeft = True\<rparr>"
      0 1 "\<lparr>label = ''ok'', confidence = 0.9\<rparr>" 2 "\<lparr>label = ''scratch'', confidence = 0.8\<rparr>"
      3 "\<lparr>label = ''scratch'', confidence = 0.7\<rparr>" 4]
  by (simp add: inspector_constructor_def del: process_frames.simps)

text \<open>
  The claim as stated has \<open>stateChanged\<close> true exactly once; on a new inspector the exit
  call sets it as well.
\<close>

theorem inspection_cycle_stateChanged_twice:
  "map stateChanged (fst (process_frames inspector_constructor
      [(0, None, \<lparr>present = True, justEntered = True, justLeft = False\<rparr>),
       (1, Some \<lparr>label = ''ok'', confidence = 0.9\<rparr>, \<lparr>present = True, justEntered = False, justLeft = False\<rparr>),
       (2, Some \<lparr>label = ''scratch'', confidence = 0.8\<rparr>, \<lparr>present = True, justEntered = False, justLeft = False\<rparr>),
       (3, Some \<lparr>label = ''scratch'', confidence = 0.7\<rparr>, \<lparr>present = True, justEntered = False, justLeft = False\<rparr>),
       (4, None, \<lparr>present = False, justEntered = False, justLeft = True\<rparr>)]))
   = [True, False, False, False, True]"
  by (simp add: processFrame_def on_entered_def on_prediction_def on_left_def
      getAggregatedResult_def push_prediction_def Let_def inspector_constructor_def)

section \<open>Calls outside the transitions\<close>

text \<open>
  Claim C2, amended. A call without \<open>justEntered\<close> that matches no transition (the state
  is not \<open>Inspecting\<close>, or it is and the call has neither a sample nor \<open>justLeft\<close>) leaves
  the whole inspector unchanged and returns \<open>stateChanged = false\<close>, with no result. A call
  with \<open>justEntered\<close> (no sample, no \<open>justLeft\<close>) starts a new inspection in every state,
  \<open>Inspecting\<close> included: the buffer is cleared and \<open>stateChanged\<close> is true.
\<close>

theorem no_transition_or_restart:
  "(\<not> justEntered presenceInfo \<and>
      (state this \<noteq> Inspecting \<or> (prediction = None \<and> \<not> justLeft presenceInfo)) \<longrightarrow>
    processFrame this now prediction presenceInfo =
      (\<lparr>stateChanged = False, inspectionComplete = False, currentResult = None, finalResult = None\<rparr>, this)) \<and>
   (justEntered presenceInfo \<and> \<not> justLeft presenceInfo \<longrightarrow>
    processFrame this now None presenceInfo =
      (\<lparr>stateChanged = True, inspectionComplete = False, currentResult = None, finalResult = None\<rparr>,
       this\<lparr>state := Inspecting,
             currentInspection := Some \<lparr>startTime = now, insp_predictions = [], thumbnail = None\<rparr>,
             predictionBuffer := []\<rparr>))"
  by (auto simp add: processFrame_def on_entered_def on_prediction_def on_left_def split: option.splits)

theorem no_transition_or_restart_witness:
  "processFrame inspector_constructor 7 (Some \<lparr>label = ''ok'', confidence = 0.9\<rparr>)
      \<lparr>present = False, justEntered = False, justLeft = True\<rparr> =
     (\<lparr>stateChanged = False, inspectionComplete = False, currentResult = None, finalResult = None\<rparr>,
      inspector_constructor) \<and>
   processFrame (inspector_constructor\<lparr>state := Inspecting\<rparr>) 7 None
      \<lparr>present = True, justEntered = False, justLeft = False\<rparr> =
     (\<lparr>stateChanged = False, inspectionComplete = False, currentResult = None, finalResult = None\<rparr>,
      inspector_constructor\<lparr>state := Inspecting\<rparr>) \<and>
   processFrame (inspector_constructor\<lparr>state := Inspecting\<rparr>) 7 None
      \<lparr>present = True, justEntered = True, justLeft = False\<rparr> =
     (\<lparr>stateChanged = True, inspectionComplete = False, currentResult = None, finalResult = None\<rparr>,
      inspector_constructor\<lparr>state := Inspecting,
        currentInspection := Some \<lparr>startTime = 7, insp_predictions = [], thumbnail = None\<rparr>,
        predictionBuffer := []\<rparr>)"
  using no_transition_or_restart [of "\<lparr>present = False, justEntered = False, justLeft = True\<rparr>"
      inspector_constructor "Some \<lparr>label = ''ok'', confidence = 0.9\<rparr>" 7]
    no_transition_or_restart [of "\<lparr>present = True, justEntered = False, justLeft = False\<rparr>"
      "inspector_constructor\<lparr>state := Inspecting\<rparr>" None 7]
    no_transition_or_restart [of "\<lparr>present = True, justEntered = True, justLeft = False\<rparr>"
      "inspector_constructor\<lparr>state := Inspecting\<rparr>" None 7]
  by (simp add: inspector_constructor_def)

text \<open>
  The claim as stated lets a \<open>justEntered\<close> call in state \<open>Inspecting\<close> change nothing.
  After an entry call and one sample the inspector is inspecting with one buffered sample;
  a further \<open>justEntered\<close> call returns \<open>stateChanged = true\<close> and empties the buffer.
\<close>

theorem restart_while_inspecting:
  "state (snd (process_frames inspector_constructor
      [entry_call 0 True, sample_call (1, \<lparr>label = ''ok'', confidence = 0.9\<rparr>, True)])) = Inspecting \<and>
   predictionBuffer (snd (process_frames inspector_constructor
      [entry_call 0 True, sample_call (1, \<lparr>label = ''ok'', confidence = 0.9\<rparr>, True)])) =
     [\<lparr>label = ''ok'', confidence = 0.9\<rparr>] \<and>
   stateChanged (fst (processFrame (snd (process_frames inspector_constructor
      [entry_call 0 True, sample_call (1, \<lparr>label = ''ok'', confidence = 0.9\<rparr>, True)]))
      2 None \<lparr>present = True, justEntered = True, justLeft = False\<rparr>)) = True \<and>
   predictionBuffer (snd (processFrame (snd (process_frames inspector_constructor
      [entry_call 0 True, sample_call (1, \<lparr>label = ''ok'', confidence = 0.9\<rparr>, True)]))
      2 None \<lparr>present = True, justEntered = True, justLeft = False\<rparr>)) = []"
  by (simp add: processFrame_def on_entered_def on_prediction_def on_left_def
      getAggregatedResult_def push_prediction_def Let_def inspector_constructor_def
      entry_call_def sample_call_def)

section \<open>Frames without change\<close>

lemma pixel_unchanged: "0 \<le> threshold \<Longrightarrow> \<not> pixel_changed threshold f f i"
  by (simp add: pixel_changed_def abs_diff_def channel_def)

lemma count_changed_equal:
  "0 \<le> threshold \<Longrightarrow> prev = cur \<Longrightarrow>
   count_changed threshold cur prev i changedPixels = changedPixels"
proof (induction threshold cur prev i changedPixels rule: count_changed.induct)
  case (1 threshold cur prev i changedPixels)
  then show ?case
    by (subst count_changed.simps) (simp add: pixel_unchanged)
qed

lemma count_changed_same:
  "0 \<le> threshold \<Longrightarrow> count_changed threshold f f i changedPixels = changedPixels"
  by (simp add: count_changed_equal)

lemma has_motion_same:
  "0 \<le> motionThreshold this \<Longrightarrow> 0 \<le> presenceThreshold this \<Longrightarrow> \<not> has_motion this f f"
  by (simp add: has_motion_def count_changed_same)

lemma detect_frames_fst_Cons:
  "fst (detect_frames this ((readyState, currentFrame) # calls)) =
     fst (detectProductPresence this readyState currentFrame) #
     fst (detect_frames (snd (detectProductPresence this readyState currentFrame)) calls)"
  by (simp add: case_prod_unfold Let_def)

lemma detect_same_frame:
  assumes "\<not> productPresent this" "0 \<le> motionThreshold this" "0 \<le> presenceThreshold this"
    and "prevFrame this = None \<or> prevFrame this = Some f"
  shows "fst (detectProductPresence this readyState f) = absent"
    and "\<not> productPresent (snd (detectProductPresence this readyState f))"
    and "motionThreshold (snd (detectProductPresence this readyState f)) = motionThreshold this"
    and "presenceThreshold (snd (detectProductPresence this readyState f)) = presenceThreshold this"
    and "prevFrame (snd (detectProductPresence this readyState f)) = None \<or>
         prevFrame (snd (detectProductPresence this readyState f)) = Some f"
  using assms
  by (auto simp add: detectProductPresence_def debounce_def absent_def has_motion_same Let_def
      split: option.splits)

lemma detect_frames_same_frame:
  assumes "\<not> productPresent this" "0 \<le> motionThreshold this" "0 \<le> presenceThreshold this"
    and "prevFrame this = None \<or> prevFrame this = Some f"
  shows "fst (detect_frames this (map (\<lambda>readyState. (readyState, f)) rs)) =
         replicate (length rs) absent"
  using assms
proof (induction rs arbitrary: this)
  case Nil
  then show ?case by simp
next
  case (Cons r rs)
  let ?next = "snd (detectProductPresence this r f)"
  have "fst (detect_frames ?next (map (\<lambda>readyState. (readyState, f)) rs)) =
      replicate (length rs) absent"
    using detect_same_frame(2-5) [OF Cons.prems, of r]
    by (intro Cons.IH) (simp_all add: Cons.prems)
  then show ?case
    using detect_same_frame(1) [OF Cons.prems, of r]
    by (simp add: detect_frames_fst_Cons del: detect_frames.simps)
qed

text \<open>
  Claim C5. On a new presence detector (started or not), for every sequence of calls that
  all see the same frame, whatever \<open>readyState\<close> each call finds, every call returns
  \<open>present\<close>, \<open>justEntered\<close> and \<open>justLeft\<close> all false; the first call in particular.
\<close>

theorem identical_frames_no_presence:
  "fst (detect_frames (camera_constructor\<lparr>isActive := active\<rparr>)
         (map (\<lambda>readyState. (readyState, f)) rs)) =
   replicate (length rs) \<lparr>present = False, justEntered = False, justLeft = False\<rparr>"
  using detect_frames_same_frame [of "camera_constructor\<lparr>isActive := active\<rparr>" f rs]
  by (simp add: camera_constructor_def absent_def)

theorem identical_frames_no_presence_witness:
  "fst (detect_frames (camera_constructor\<lparr>isActive := True\<rparr>)
     [(4, [10, 20, 30, 255]), (4, [10, 20, 30, 255]), (1, [10, 20, 30, 255]), (4, [10, 20, 30, 255])]) =
   [\<lparr>present = False, justEntered = False, justLeft = False\<rparr>,
    \<lparr>present = False, justEntered = False, justLeft = False\<rparr>,
    \<lparr>present = False, justEntered = False, justLeft = False\<rparr>,
    \<lparr>present = False, justEntered = False, justLeft = False\<rparr>]"
proof -
  have "replicate (length [4, 4, 1, 4::nat]) x = [x, x, x, x]" for x :: presence
    by (simp add: numeral_eq_Suc)
  then show ?thesis
    using identical_frames_no_presence [of True "[10, 20, 30, 255]" "[4, 4, 1, 4]"]
    by (simp del: detect_frames.simps)
qed

section \<open>Debounce of the exit\<close>

lemma no_motion_step_absent:
  assumes "\<not> productPresent this" "no_motion_calls this ((readyState, currentFrame) # calls)"
  shows "fst (detectProductPresence this readyState currentFrame) =
           \<lparr>present = False, justEntered = False, justLeft = False\<rparr>"
    and "\<not> productPresent (snd (detectProductPresence this readyState currentFrame))"
  using assms
  by (auto simp add: detectProductPresence_def debounce_def Let_def split: option.splits)

lemma no_motion_absent:
  "\<not> productPresent this \<Longrightarrow> no_motion_calls this calls \<Longrightarrow>
   fst (detect_frames this calls) =
     replicate (length calls) \<lparr>present = False, justEntered = False, justLeft = False\<rparr>"
proof (induction calls arbitrary: this)
  case Nil
  then show ?case by simp
next
  case (Cons c calls)
  obtain readyState currentFrame where c: "c = (readyState, currentFrame)"
    by (cases c) auto
  let ?next = "snd (detectProductPresence this readyState currentFrame)"
  have nm: "no_motion_calls ?next calls"
    using Cons.prems(2) by (simp add: c)
  have "fst (detect_frames ?next calls) =
      replicate (length calls) \<lparr>present = False, justEntered = False, justLeft = False\<rparr>"
    using no_motion_step_absent(2) [of this readyState currentFrame calls] Cons.prems nm
    by (intro Cons.IH) (simp_all add: c)
  then show ?case
    using no_motion_step_absent(1) [of this readyState currentFrame calls] Cons.prems
    by (simp add: c detect_frames_fst_Cons del: detect_frames.simps no_motion_calls.simps)
qed

lemma no_motion_step_present:
  assumes "productPresent this" "no_motion_calls this ((readyState, currentFrame) # calls)"
  shows "fst (detectProductPresence this readyState currentFrame) =
           (if exitFrameCount this + 1 \<ge> exitFrameRequired this
            then \<lparr>present = False, justEntered = False, justLeft = True\<rparr>
            else \<lparr>present = True, justEntered = False, justLeft = False\<rparr>)"
    and "productPresent (snd (detectProductPresence this readyState currentFrame)) =
           (exitFrameCount this + 1 < exitFrameRequired this)"
    and "exitFrameCount (snd (detectProductPresence this readyState currentFrame)) =
           exitFrameCount this + 1"
    and "exitFrameRequired (snd (detectProductPresence this readyState currentFrame)) =
           exitFrameRequired this"
  using assms
  by (auto simp add: detectProductPresence_def debounce_def Let_def split: option.splits)

lemma no_motion_present:
  "productPresent this \<Longrightarrow> exitFrameCount this < exitFrameRequired this \<Longrightarrow>
   no_motion_calls this calls \<Longrightarrow>
   fst (detect_frames this calls) =
     map (\<lambda>k. exit_signal (exitFrameRequired this) (exitFrameCount this + k + 1))
       [0..<length calls]"
proof (induction calls arbitrary: this)
  case Nil
  then show ?case by simp
next
  case (Cons c calls)
  obtain readyState currentFrame where c: "c = (readyState, currentFrame)"
    by (cases c) auto
  let ?next = "snd (detectProductPresence this readyState currentFrame)"
  have nmc: "no_motion_calls this ((readyState, currentFrame) # calls)"
    using Cons.prems(3) by (simp add: c)
  note step = no_motion_step_present [OF Cons.prems(1) nmc]
  have nm: "no_motion_calls ?next calls"
    using Cons.prems(3) by (simp add: c)
  have upt: "[0..<Suc (length calls)] = 0 # map Suc [0..<length calls]"
    by (simp add: upt_conv_Cons map_Suc_upt del: upt_Suc)
  show ?case
  proof (cases "exitFrameCount this + 1 < exitFrameRequired this")
    case True
    have "fst (detect_frames ?next calls) =
        map (\<lambda>k. exit_signal (exitFrameRequired ?next) (exitFrameCount ?next + k + 1))
          [0..<length calls]"
      using True step(2-4) nm by (intro Cons.IH) simp_all
    then show ?thesis
      using True step(1,3,4)
      by (simp add: c upt detect_frames_fst_Cons comp_def exit_signal_def [of _ "Suc (exitFrameCount this)"]
          del: detect_frames.simps no_motion_calls.simps upt_Suc)
  next
    case False
    then have eq: "exitFrameCount this + 1 = exitFrameRequired this"
      using Cons.prems(2) by simp
    have "fst (detect_frames ?next calls) =
        replicate (length calls) \<lparr>present = False, justEntered = False, justLeft = False\<rparr>"
      using False step(2) nm by (intro no_motion_absent) simp_all
    moreover have "exit_signal (exitFrameRequired this) (Suc (Suc (exitFrameCount this + k))) =
        \<lparr>present = False, justEntered = False, justLeft = False\<rparr>" for k
      using eq by (simp add: exit_signal_def)
    moreover have "exit_signal (exitFrameRequired this) (Suc (exitFrameCount this)) =
        \<lparr>present = False, justEntered = False, justLeft = True\<rparr>"
      using eq by (simp add: exit_signal_def)
    ultimately show ?thesis
      using eq step(1)
      by (simp add: c upt detect_frames_fst_Cons comp_def map_replicate_const
          del: detect_frames.simps no_motion_calls.simps upt_Suc)
  qed
qed

text \<open>
  Claim C4. From every detector state in which the product is present and the exit counter
  is 0 (with a positive \<open>exitFrameRequired\<close>; it is 15), in a run of consecutive no-motion
  calls every call before the \<open>exitFrameRequired\<close>-th returns \<open>present\<close> true and \<open>justLeft\<close>
  false, the \<open>exitFrameRequired\<close>-th returns \<open>justLeft\<close> true and \<open>present\<close> false, and every
  later one returns all false.
\<close>

theorem exit_debounce:
  assumes "productPresent this" and "exitFrameCount this = 0" and "0 < exitFrameRequired this"
    and "no_motion_calls this calls"
  shows "fst (detect_frames this calls) =
     map (\<lambda>k. if k + 1 < exitFrameRequired this
               then \<lparr>present = True, justEntered = False, justLeft = False\<rparr>
               else if k + 1 = exitFrameRequired this
               then \<lparr>present = False, justEntered = False, justLeft = True\<rparr>
               else \<lparr>present = False, justEntered = False, justLeft = False\<rparr>)
       [0..<length calls]"
  using no_motion_present [of this calls] assms by (simp add: exit_signal_def)

theorem exit_debounce_witness:
  "productPresent (camera_constructor\<lparr>isActive := True, prevFrame := Some [10, 20, 30, 255], productPresent := True\<rparr>) \<and>
   exitFrameCount (camera_constructor\<lparr>isActive := True, prevFrame := Some [10, 20, 30, 255], productPresent := True\<rparr>) = 0 \<and>
   no_motion_calls (camera_constructor\<lparr>isActive := True, prevFrame := Some [10, 20, 30, 255], productPresent := True\<rparr>)
     (replicate 17 (4, [10, 20, 30, 255])) \<and>
   map justLeft (fst (detect_frames
     (camera_constructor\<lparr>isActive := True, prevFrame := Some [10, 20, 30, 255], productPresent := True\<rparr>)
     (replicate 17 (4, [10, 20, 30, 255])))) =
     [False, False, False, False, False, False, False, False, False, False, False, False, False, False,
      True, False, False] \<and>
   map present (fst (detect_frames
     (camera_constructor\<lparr>isActive := True, prevFrame := Some [10, 20, 30, 255], productPresent := True\<rparr>)
     (replicate 17 (4, [10, 20, 30, 255])))) =
     [True, True, True, True, True, True, True, True, True, True, True, True, True, True,
      False, False, False]"
proof -
  have rep17: "replicate 17 x = [x, x, x, x, x, x, x, x, x, x, x, x, x, x, x, x, x]" for x :: "nat \<times> frame"
    by (simp add: numeral_eq_Suc)
  let ?c = "camera_constructor\<lparr>isActive := True, prevFrame := Some [10, 20, 30, 255], productPresent := True\<rparr>"
  let ?calls = "replicate 17 (4::nat, [10, 20, 30, 255::8 word])"
  have nm: "no_motion_calls ?c ?calls"
    by (simp add: rep17 detectProductPresence_def debounce_def has_motion_same
        camera_constructor_def)
  have p: "productPresent ?c" and e: "exitFrameCount ?c = 0" and r: "0 < exitFrameRequired ?c"
    by (simp_all add: camera_constructor_def)
  have up: "[0..<17] = [0,1,2,3,4,5,6,7,8,9,10,11,12,13,14,15,16::nat]"
    by (simp add: upt_rec)
  have "fst (detect_frames ?c ?calls) =
      map (exit_signal 15) [1,2,3,4,5,6,7,8,9,10,11,12,13,14,15,16,17]"
    using exit_debounce [OF p e r nm] by (simp add: up exit_signal_def camera_constructor_def)
  then show ?thesis
    using nm p e by (simp add: exit_signal_def)
qed

section \<open>Rounding to a double\<close>

lemma floor_log_binade:
  assumes "2 powi e \<le> \<bar>x\<bar>" and "\<bar>x\<bar> < 2 powi (e + 1)"
  shows "\<lfloor>log 2 \<bar>x\<bar>\<rfloor> = e"
proof -
  have "(0::real) < 2 powi e"
    by simp
  then have pos: "0 < \<bar>x\<bar>"
    using assms(1) by linarith
  have "2 powr (real_of_int e) \<le> \<bar>x\<bar>"
    using assms(1) by (simp add: powr_real_of_int')
  moreover have "(2::real) powr (real_of_int (e + 1)) = 2 powi (e + 1)"
    by (rule powr_real_of_int') simp_all
  then have "\<bar>x\<bar> < 2 powr (real_of_int (e + 1))"
    using assms(2) by simp
  ultimately show ?thesis
    using pos floor_log_eq_powr_iff [of "\<bar>x\<bar>" 2 e] by simp
qed

lemma floor_log_large:
  assumes "1 \<le> \<bar>x\<bar>"
  shows "\<lfloor>log 2 \<bar>x\<bar>\<rfloor> = bitlen \<lfloor>\<bar>x\<bar>\<rfloor> - 1"
proof (rule floor_log_binade)
  let ?m = "\<lfloor>\<bar>x\<bar>\<rfloor>"
  have m: "0 < ?m"
    using assms by simp
  have b: "2 ^ nat (bitlen ?m - 1) \<le> ?m" "?m < 2 ^ nat (bitlen ?m)"
    using bitlen_bounds [OF m] by simp_all
  have pos: "0 < bitlen ?m"
    using m by (metis bitlen_eq_zero_iff bitlen_nonneg le_less not_less)
  have "real_of_int (2 ^ nat (bitlen ?m - 1)) \<le> real_of_int ?m"
    using b(1) by (simp only: of_int_le_iff)
  also have "\<dots> \<le> \<bar>x\<bar>"
    by simp
  finally show "2 powi (bitlen ?m - 1) \<le> \<bar>x\<bar>"
    using pos by (simp add: power_int_def)
  have "?m + 1 \<le> 2 ^ nat (bitlen ?m)"
    using b(2) by simp
  then have "real_of_int (?m + 1) \<le> real_of_int (2 ^ nat (bitlen ?m))"
    by (simp only: of_int_le_iff)
  then have "real_of_int ?m + 1 \<le> 2 ^ nat (bitlen ?m)"
    by simp
  moreover have "\<bar>x\<bar> < real_of_int ?m + 1"
    by linarith
  ultimately have "\<bar>x\<bar> < 2 ^ nat (bitlen ?m)"
    by linarith
  then show "\<bar>x\<bar> < 2 powi (bitlen ?m - 1 + 1)"
    using pos by (simp add: power_int_def)
qed

lemma floor_log_small:
  assumes "0 < \<bar>x\<bar>" and "\<bar>x\<bar> < 1"
  shows "\<lfloor>log 2 \<bar>x\<bar>\<rfloor> = - bitlen (\<lceil>1 / \<bar>x\<bar>\<rceil> - 1)"
proof (rule floor_log_binade)
  let ?c = "\<lceil>1 / \<bar>x\<bar>\<rceil>"
  have inv: "1 < 1 / \<bar>x\<bar>"
    using assms by simp
  then have c: "0 < ?c - 1"
    by (simp add: less_ceiling_iff)
  have b: "2 ^ nat (bitlen (?c - 1) - 1) \<le> ?c - 1" "?c - 1 < 2 ^ nat (bitlen (?c - 1))"
    using bitlen_bounds [OF c] by simp_all
  have pos: "0 < bitlen (?c - 1)"
    using c by (metis bitlen_eq_zero_iff bitlen_nonneg le_less not_less)
  have "?c \<le> 2 ^ nat (bitlen (?c - 1))"
    using b(2) by simp
  then have "real_of_int ?c \<le> real_of_int (2 ^ nat (bitlen (?c - 1)))"
    by (simp only: of_int_le_iff)
  moreover have "1 / \<bar>x\<bar> \<le> real_of_int ?c"
    by simp
  ultimately have "1 / \<bar>x\<bar> \<le> real_of_int (2 ^ nat (bitlen (?c - 1)))"
    by linarith
  then have "1 / \<bar>x\<bar> \<le> 2 ^ nat (bitlen (?c - 1))"
    by simp
  then have "1 / 2 ^ nat (bitlen (?c - 1)) \<le> \<bar>x\<bar>"
    using assms(1) by (simp add: field_simps)
  then show "2 powi (- bitlen (?c - 1)) \<le> \<bar>x\<bar>"
    using pos by (simp add: power_int_def field_simps)
  have "real_of_int (2 ^ nat (bitlen (?c - 1) - 1)) \<le> real_of_int (?c - 1)"
    using b(1) by (simp only: of_int_le_iff)
  moreover have "real_of_int (?c - 1) < 1 / \<bar>x\<bar>"
    by simp linarith
  ultimately have "real_of_int (2 ^ nat (bitlen (?c - 1) - 1)) < 1 / \<bar>x\<bar>"
    by linarith
  then have "2 ^ nat (bitlen (?c - 1) - 1) < 1 / \<bar>x\<bar>"
    by simp
  then have lt: "\<bar>x\<bar> < 1 / 2 ^ nat (bitlen (?c - 1) - 1)"
    using assms(1) by (simp add: field_simps)
  show "\<bar>x\<bar> < 2 powi (- bitlen (?c - 1) + 1)"
  proof (cases "bitlen (?c - 1) = 1")
    case True
    then show ?thesis using lt by simp
  next
    case False
    then have "nat (bitlen (?c - 1) - 1) = nat (- (- bitlen (?c - 1) + 1))"
        "- bitlen (?c - 1) + 1 < 0"
      using pos by simp_all
    then show ?thesis
      using lt by (simp add: power_int_def field_simps)
  qed
qed

lemma exponent_of_log: "x \<noteq> 0 \<Longrightarrow> exponent_of x = \<lfloor>log 2 \<bar>x\<bar>\<rfloor>"
  using floor_log_large [of x] floor_log_small [of x] by (auto simp add: exponent_of_def)

lemma exponent_of_binade:
  assumes "2 powi e \<le> \<bar>x\<bar>" and "\<bar>x\<bar> < 2 powi (e + 1)"
  shows "exponent_of x = e"
proof -
  have "(0::real) < 2 powi e"
    by simp
  then have "x \<noteq> 0"
    using assms(1) by linarith
  then show ?thesis
    using floor_log_binade [OF assms] by (simp add: exponent_of_log)
qed

text \<open>How \<open>nearest\<close> is evaluated on a number whose binade is known.\<close>

lemma nearest_in_binade:
  assumes "2 powi e \<le> \<bar>x\<bar>" and "\<bar>x\<bar> < 2 powi (e + 1)"
  shows "nearest x =
     of_int (round_half_even (x / 2 powi (max e (- 1022) - 52))) * 2 powi (max e (- 1022) - 52)"
proof -
  have "(0::real) < 2 powi e"
    by simp
  then have "x \<noteq> 0"
    using assms(1) by linarith
  then show ?thesis
    by (simp add: nearest_def ulp_exponent_def exponent_of_binade [OF assms])
qed

lemma js_add_not_NaN: "a \<noteq> NaN \<Longrightarrow> js_add a x \<noteq> NaN"
  by (cases a) (simp_all add: js_add_def to_double_def Let_def)

lemma or_zero_number: "a \<noteq> NaN \<Longrightarrow> or_zero a = a"
  by (cases a) (simp_all add: or_zero_def)

text \<open>
  The decimal literals \<open>0.7\<close>, \<open>0.8\<close>, \<open>0.1\<close> and \<open>0.2\<close> denote the doubles below;
  \<open>0.5\<close> and \<open>0.75\<close> are doubles. The other lemmas round the sums and quotients of the
  examples that follow.
\<close>

lemma nearest_7_10: "nearest (7 / 10) = 3152519739159347 / 4503599627370496"
  by (subst nearest_in_binade [where e = "- 1"]) (simp_all add: round_half_even_def)

lemma nearest_4_5: "nearest (4 / 5) = 3602879701896397 / 4503599627370496"
  by (subst nearest_in_binade [where e = "- 1"]) (simp_all add: round_half_even_def)

lemma nearest_1_10: "nearest (1 / 10) = 3602879701896397 / 36028797018963968"
  by (subst nearest_in_binade [where e = "- 4"]) (simp_all add: round_half_even_def)

lemma nearest_1_5: "nearest (1 / 5) = 3602879701896397 / 18014398509481984"
  by (subst nearest_in_binade [where e = "- 3"]) (simp_all add: round_half_even_def)

lemma nearest_1_2: "nearest (1 / 2) = 1 / 2"
  by (subst nearest_in_binade [where e = "- 1"]) (simp_all add: round_half_even_def)

lemma nearest_3_4: "nearest (3 / 4) = 3 / 4"
  by (subst nearest_in_binade [where e = "- 1"]) (simp_all add: round_half_even_def)

lemmas nearest_literals =
  nearest_7_10 nearest_4_5 nearest_1_10 nearest_1_5 nearest_1_2 nearest_3_4

lemma to_double_1_2: "to_double (1 / 2) = Num (1 / 2)"
  by (simp add: to_double_def nearest_1_2)

lemma to_double_3_4: "to_double (3 / 4) = Num (3 / 4)"
  by (simp add: to_double_def nearest_3_4)

lemma to_double_3_2: "to_double (3 / 2) = Num (3 / 2)"
  unfolding to_double_def
  by (subst nearest_in_binade [where e = 0]) (simp_all add: round_half_even_def)

lemma to_double_0_8:
  "to_double (3602879701896397 / 4503599627370496) = Num (3602879701896397 / 4503599627370496)"
  unfolding to_double_def
  by (subst nearest_in_binade [where e = "- 1"]) (simp_all add: round_half_even_def)

lemma to_double_0_1:
  "to_double (3602879701896397 / 36028797018963968) = Num (3602879701896397 / 36028797018963968)"
  unfolding to_double_def
  by (subst nearest_in_binade [where e = "- 4"]) (simp_all add: round_half_even_def)

lemma to_double_0_1_plus_0_2:
  "to_double (10808639105689191 / 36028797018963968) = Num (1351079888211149 / 4503599627370496)"
  unfolding to_double_def
  by (subst nearest_in_binade [where e = "- 2"]) (simp_all add: round_half_even_def)

lemma to_double_0_15:
  "to_double (1351079888211149 / 9007199254740992) = Num (1351079888211149 / 9007199254740992)"
  unfolding to_double_def
  by (subst nearest_in_binade [where e = "- 3"]) (simp_all add: round_half_even_def)

lemma to_double_0_7:
  "to_double (3152519739159347 / 4503599627370496) = Num (3152519739159347 / 4503599627370496)"
  unfolding to_double_def
  by (subst nearest_in_binade [where e = "- 1"]) (simp_all add: round_half_even_def)

lemma to_double_1_4:
  "to_double (3152519739159347 / 2251799813685248) = Num (3152519739159347 / 2251799813685248)"
  unfolding to_double_def
  by (subst nearest_in_binade [where e = 0]) (simp_all add: round_half_even_def)

lemma to_double_2_1:
  "to_double (9457559217478041 / 4503599627370496) = Num (1182194902184755 / 562949953421312)"
  unfolding to_double_def
  by (subst nearest_in_binade [where e = 1]) (simp_all add: round_half_even_def)

lemma to_double_2_1_by_3:
  "to_double (1182194902184755 / 1688849860263936) = Num (6305039478318693 / 9007199254740992)"
  unfolding to_double_def
  by (subst nearest_in_binade [where e = "- 1"]) (simp_all add: round_half_even_def)

lemmas to_double_examples = to_double_1_2 to_double_3_4 to_double_3_2 to_double_0_8
  to_double_0_1 to_double_0_1_plus_0_2 to_double_0_15 to_double_0_7 to_double_1_4
  to_double_2_1 to_double_2_1_by_3

subsection \<open>Rounding leaves a double unchanged\<close>

text \<open>
  The doubles are the values of \<open>nearest\<close>. Rounding one of them again changes nothing, so
  that the read of a confidence that is a double yields that double.
\<close>

lemma round_half_even_of_int: "round_half_even (of_int n) = n"
  by (simp add: round_half_even_def)

lemma round_half_even_ge: "of_int k \<le> q \<Longrightarrow> k \<le> round_half_even q"
proof -
  assume "of_int k \<le> q"
  then have "k \<le> \<lfloor>q\<rfloor>"
    by (simp add: le_floor_iff)
  then show ?thesis
    by (simp add: round_half_even_def Let_def)
qed

lemma round_half_even_le: "q \<le> of_int k \<Longrightarrow> round_half_even q \<le> k"
proof (cases "q = of_int \<lfloor>q\<rfloor>")
  case True
  assume "q \<le> of_int k"
  then have "\<lfloor>q\<rfloor> \<le> k"
    by (simp add: floor_le_iff)
  moreover have "round_half_even q = \<lfloor>q\<rfloor>"
    using True by (simp add: round_half_even_def Let_def)
  ultimately show ?thesis by simp
next
  case False
  assume "q \<le> of_int k"
  moreover have "of_int \<lfloor>q\<rfloor> < q"
    using False of_int_floor_le [of q] by linarith
  ultimately have "of_int \<lfloor>q\<rfloor> < (of_int k :: real)"
    by linarith
  then have "\<lfloor>q\<rfloor> + 1 \<le> k"
    by simp
  moreover have "round_half_even q \<le> \<lfloor>q\<rfloor> + 1"
    by (simp add: round_half_even_def Let_def)
  ultimately show ?thesis by linarith
qed

lemma round_abs_ge:
  assumes "of_int k \<le> \<bar>q\<bar>"
  shows "k \<le> \<bar>round_half_even q\<bar>"
proof (cases "0 \<le> q")
  case True
  then show ?thesis
    using round_half_even_ge [of k q] assms by simp
next
  case False
  then have "q \<le> of_int (- k)"
    using assms by simp
  then show ?thesis
    using round_half_even_le [of q "- k"] by simp
qed

lemma round_abs_le:
  assumes "\<bar>q\<bar> \<le> of_int k"
  shows "\<bar>round_half_even q\<bar> \<le> k"
proof -
  have "q \<le> of_int k" "of_int (- k) \<le> q"
    using assms by simp_all
  then show ?thesis
    using round_half_even_le [of q k] round_half_even_ge [of "- k" q] by simp
qed

lemma exponent_bounds:
  assumes "x \<noteq> 0"
  shows "2 powi exponent_of x \<le> \<bar>x\<bar>" and "\<bar>x\<bar> < 2 powi (exponent_of x + 1)"
proof -
  have pos: "0 < \<bar>x\<bar>"
    using assms by simp
  have "2 powr (real_of_int \<lfloor>log 2 \<bar>x\<bar>\<rfloor>) \<le> \<bar>x\<bar> \<and>
      \<bar>x\<bar> < 2 powr (real_of_int \<lfloor>log 2 \<bar>x\<bar>\<rfloor> + 1)"
    using floor_log_eq_powr_iff [of "\<bar>x\<bar>" 2 "\<lfloor>log 2 \<bar>x\<bar>\<rfloor>"] pos by simp
  moreover have "(2::real) powr (real_of_int k) = 2 powi k" for k
    by (rule powr_real_of_int') simp_all
  moreover have "real_of_int \<lfloor>log 2 \<bar>x\<bar>\<rfloor> + 1 = real_of_int (\<lfloor>log 2 \<bar>x\<bar>\<rfloor> + 1)"
    by simp
  ultimately have "2 powi \<lfloor>log 2 \<bar>x\<bar>\<rfloor> \<le> \<bar>x\<bar> \<and> \<bar>x\<bar> < 2 powi (\<lfloor>log 2 \<bar>x\<bar>\<rfloor> + 1)"
    by metis
  then show "2 powi exponent_of x \<le> \<bar>x\<bar>" and "\<bar>x\<bar> < 2 powi (exponent_of x + 1)"
    using assms by (simp_all add: exponent_of_log)
qed

lemma exponent_of_less:
  assumes "x \<noteq> 0" and "\<bar>x\<bar> < 2 powi k"
  shows "exponent_of x < k"
proof (rule ccontr)
  assume "\<not> exponent_of x < k"
  then have "(2::real) powi k \<le> 2 powi exponent_of x"
    by (intro power_int_increasing) simp_all
  then show False
    using exponent_bounds(1) [OF assms(1)] assms(2) by linarith
qed

lemma nearest_scaled:
  assumes "y = of_int n * 2 powi u" and "ulp_exponent y = u"
  shows "nearest y = y"
proof (cases "y = 0")
  case True
  then show ?thesis by (simp add: nearest_def)
next
  case False
  have "y / 2 powi u = of_int n"
    using assms(1) by simp
  then show ?thesis
    using False assms by (simp add: nearest_def round_half_even_of_int)
qed


lemma nearest_nearest: "nearest (nearest x) = nearest x"
proof (cases "nearest x = 0")
  case True
  then show ?thesis by (simp add: nearest_def)
next
  case False
  then have x: "x \<noteq> 0"
    by (auto simp add: nearest_def)
  define e where "e = exponent_of x"
  define u where "u = max e (- 1022) - 52"
  define q where "q = x / 2 powi u"
  define n where "n = round_half_even q"
  define y where "y = nearest x"
  have y: "y = of_int n * 2 powi u"
    using x by (simp add: y_def nearest_def ulp_exponent_def n_def q_def u_def e_def)
  have y0: "y \<noteq> 0"
    using False by (simp add: y_def)
  have abs_y: "\<bar>y\<bar> = of_int \<bar>n\<bar> * 2 powi u"
    by (simp add: y abs_mult)
  have abs_q: "\<bar>q\<bar> = \<bar>x\<bar> / 2 powi u"
    by (simp add: q_def abs_divide)
  have xb: "2 powi e \<le> \<bar>x\<bar>" "\<bar>x\<bar> < 2 powi (e + 1)"
    using exponent_bounds [OF x] by (simp_all add: e_def)
  have split: "(2::real) powi (k + u) = 2 powi k * 2 powi u" for k
    by (rule power_int_add) simp
  have "ulp_exponent y = u \<or> (ulp_exponent y = u + 1 \<and> even n)"
  proof (cases "- 1022 \<le> e")
    case True
    then have u: "u = e - 52"
      by (simp add: u_def)
    have "e = 52 + u" "e + 1 = 53 + u"
      by (simp_all add: u)
    then have eq52: "(2::real) powi e = 2 powi 52 * 2 powi u"
      and eq53: "(2::real) powi (e + 1) = 2 powi 53 * 2 powi u"
      by (simp_all only: split)
    have "2 powi 52 * 2 powi u \<le> \<bar>x\<bar>"
      using xb(1) by (simp only: eq52)
    then have "2 powi 52 \<le> \<bar>q\<bar>"
      by (simp add: abs_q field_simps)
    then have "of_int (2 ^ 52) \<le> \<bar>q\<bar>"
      by simp
    then have lo: "2 ^ 52 \<le> \<bar>n\<bar>"
      unfolding n_def by (rule round_abs_ge)
    have "\<bar>x\<bar> < 2 powi 53 * 2 powi u"
      using xb(2) by (simp only: eq53)
    then have "\<bar>q\<bar> \<le> 2 powi 53"
      by (simp add: abs_q field_simps)
    then have "\<bar>q\<bar> \<le> of_int (2 ^ 53)"
      by simp
    then have hi: "\<bar>n\<bar> \<le> 2 ^ 53"
      unfolding n_def by (rule round_abs_le)
    have "real_of_int (2 ^ 52) \<le> real_of_int \<bar>n\<bar>"
      using lo by (simp only: of_int_le_iff)
    then have "2 powi 52 * 2 powi u \<le> \<bar>y\<bar>"
      by (simp add: abs_y)
    then have ylo: "2 powi e \<le> \<bar>y\<bar>"
      by (simp only: eq52)
    show ?thesis
    proof (cases "\<bar>n\<bar> = 2 ^ 53")
      case True
      then have "\<bar>y\<bar> = 2 powi 53 * 2 powi u"
        by (simp add: abs_y)
      then have "\<bar>y\<bar> = 2 powi (e + 1)"
        by (simp only: eq53)
      moreover have "(2::real) powi (e + 1) < 2 powi (e + 1 + 1)"
        by (intro power_int_strict_increasing) simp_all
      ultimately have "exponent_of y = e + 1"
        by (intro exponent_of_binade) simp_all
      moreover have "even \<bar>n\<bar>"
        by (simp only: True) simp
      then have "even n"
        by simp
      ultimately show ?thesis
        using \<open>- 1022 \<le> e\<close> by (simp add: ulp_exponent_def u)
    next
      case False
      then have "\<bar>n\<bar> < 2 ^ 53"
        using hi by simp
      then have "real_of_int \<bar>n\<bar> < real_of_int (2 ^ 53)"
        by (simp only: of_int_less_iff)
      then have "\<bar>y\<bar> < 2 powi 53 * 2 powi u"
        by (simp add: abs_y)
      then have "\<bar>y\<bar> < 2 powi (e + 1)"
        by (simp only: eq53)
      then have "exponent_of y = e"
        using ylo by (intro exponent_of_binade)
      then show ?thesis
        by (simp add: ulp_exponent_def u_def)
    qed
  next
    case False
    then have u: "u = - 1074"
      by (simp add: u_def)
    have "(- 1022::int) = 52 + u"
      by (simp add: u)
    then have eq: "(2::real) powi (- 1022) = 2 powi 52 * 2 powi u"
      by (simp only: split)
    have "(2::real) powi (e + 1) \<le> 2 powi (- 1022)"
      using False by (intro power_int_increasing) simp_all
    then have "\<bar>x\<bar> < 2 powi (- 1022)"
      using xb(2) by linarith
    then have "\<bar>x\<bar> < 2 powi 52 * 2 powi u"
      by (simp only: eq)
    then have "\<bar>q\<bar> \<le> 2 powi 52"
      by (simp add: abs_q field_simps)
    then have "\<bar>q\<bar> \<le> of_int (2 ^ 52)"
      by simp
    then have "\<bar>n\<bar> \<le> 2 ^ 52"
      unfolding n_def by (rule round_abs_le)
    then have "real_of_int \<bar>n\<bar> \<le> real_of_int (2 ^ 52)"
      by (simp only: of_int_le_iff)
    then have "\<bar>y\<bar> \<le> 2 powi 52 * 2 powi u"
      by (simp add: abs_y)
    then have "\<bar>y\<bar> \<le> 2 powi (- 1022)"
      by (simp only: eq)
    moreover have "(2::real) powi (- 1022) < 2 powi (- 1021)"
      by (intro power_int_strict_increasing) simp_all
    ultimately have "\<bar>y\<bar> < 2 powi (- 1021)"
      by linarith
    then have "exponent_of y < - 1021"
      using y0 by (intro exponent_of_less)
    then show ?thesis
      by (simp add: ulp_exponent_def u)
  qed
  then have "nearest y = y"
  proof
    assume "ulp_exponent y = u"
    then show ?thesis
      using y by (intro nearest_scaled)
  next
    assume a: "ulp_exponent y = u + 1 \<and> even n"
    then obtain m where m: "n = 2 * m"
      by (auto elim: evenE)
    have "(2::real) powi (u + 1) = 2 powi u * 2"
      by (rule power_int_add_1) simp
    then have "y = of_int m * 2 powi (u + 1)"
      by (simp add: y m)
    then show ?thesis
      using a by (intro nearest_scaled) simp_all
  qed
  then show ?thesis
    by (simp add: y_def)
qed

lemma read_confidence_double:
  "confidence p = nearest x \<Longrightarrow> read_confidence p = confidence p"
  by (simp add: read_confidence_def nearest_nearest)

section \<open>The majority vote\<close>

subsection \<open>Stored vote counts are positive\<close>

lemma update_entries:
  "set (AList.update k v al) \<subseteq> insert (k, v) (set al)"
  by (induction al) auto

lemma update_nonzero:
  "\<forall>e\<in>set votes. snd e \<noteq> Number (0::nat) \<Longrightarrow> x \<noteq> Number 0 \<Longrightarrow>
   \<forall>e\<in>set (AList.update l x votes). snd e \<noteq> Number 0"
  using update_entries [of l x votes] by auto

lemma add_to_slot_votes_nonzero:
  assumes "\<forall>e\<in>set votes. snd e \<noteq> Number (0::nat)"
  shows "\<forall>e\<in>set (add_to_slot (+) 0 votes l 1). snd e \<noteq> Number 0"
proof (cases "map_of votes l")
  case None
  then show ?thesis
    using assms update_nonzero [OF assms, of NonNumeric l]
      update_nonzero [OF assms, of "Number 1" l]
    by (simp add: add_to_slot_def)
next
  case (Some v)
  then show ?thesis
    using update_nonzero [OF assms, of NonNumeric l]
      update_nonzero [OF assms, of "Number (n + 1)" l for n]
    by (cases v) (simp_all add: add_to_slot_def)
qed

lemma tally_votes_nonzero:
  "\<forall>e\<in>set votes. snd e \<noteq> Number 0 \<Longrightarrow>
   \<forall>e\<in>set (fst (tally buf votes confidenceSums)). snd e \<noteq> Number 0"
proof (induction buf arbitrary: votes confidenceSums)
  case Nil
  then show ?case by simp
next
  case (Cons p buf)
  show ?case
    using Cons.IH [OF add_to_slot_votes_nonzero [OF Cons.prems]] by simp
qed

lemma tally_votes_positive:
  "map_of (fst (tally buf [] [])) l = Some (Number n) \<Longrightarrow> 0 < n"
  using tally_votes_nonzero [of "[]" buf "[]"] by (auto dest!: map_of_SomeD)

subsection \<open>The tallies of a buffer without inherited names\<close>

lemma first_seen_snoc:
  "first_seen (ls @ [l]) = (if l \<in> set ls then first_seen ls else first_seen ls @ [l])"
  by (simp add: first_seen_def)

lemma set_first_seen [simp]: "set (first_seen ls) = set ls"
  by (simp add: first_seen_def)

lemma distinct_first_seen [simp]: "distinct (first_seen ls)"
  by (simp add: first_seen_def)

lemma votes_for_snoc:
  "votes_for l (buf @ [p]) = (if label p = l then votes_for l buf + 1 else votes_for l buf)"
  by (simp add: votes_for_def)

lemma confidence_sum_snoc:
  "confidence_sum l (buf @ [p]) =
     (if label p = l then js_add (confidence_sum l buf) (read_confidence p)
      else confidence_sum l buf)"
  by (simp add: confidence_sum_def)

lemma confidence_sum_not_NaN: "confidence_sum l buf \<noteq> NaN"
  by (induction buf rule: rev_induct) (simp_all add: confidence_sum_snoc js_add_not_NaN, simp add: confidence_sum_def)

lemma add_confidence_sum:
  "add_confidence (confidence_sum l buf) x = js_add (confidence_sum l buf) x"
  by (simp add: add_confidence_def or_zero_number confidence_sum_not_NaN)

lemma votes_for_absent: "l \<notin> label ` set buf \<Longrightarrow> votes_for l buf = 0"
  by (auto simp add: votes_for_def filter_empty_conv)

lemma confidence_sum_absent: "l \<notin> label ` set buf \<Longrightarrow> confidence_sum l buf = Num 0"
proof -
  assume "l \<notin> label ` set buf"
  then have "filter (\<lambda>p. label p = l) buf = []"
    by (auto simp add: filter_empty_conv)
  then show ?thesis by (simp add: confidence_sum_def)
qed

lemma votes_for_positive: "l \<in> label ` set buf \<Longrightarrow> 0 < votes_for l buf"
  by (auto simp add: votes_for_def filter_empty_conv)

lemma update_present:
  "k \<in> set ks \<Longrightarrow> distinct ks \<Longrightarrow>
   AList.update k v (map (\<lambda>l. (l, f l)) ks) = map (\<lambda>l. (l, if l = k then v else f l)) ks"
  by (induction ks) auto

lemma update_new:
  "k \<notin> set ks \<Longrightarrow> AList.update k v (map (\<lambda>l. (l, f l)) ks) = map (\<lambda>l. (l, f l)) ks @ [(k, v)]"
  by (induction ks) auto

lemma map_of_keys:
  "map_of (map (\<lambda>l. (l, f l)) ks) k = (if k \<in> set ks then Some (f k) else None)"
  by (induction ks) auto

lemma add_to_slot_plain:
  assumes "k \<notin> set inherited" and "distinct ks"
    and "\<And>l. g l = (if l = k then op (f l) x else f l)"
    and "k \<notin> set ks \<Longrightarrow> f k = z"
  shows "add_to_slot op z (map (\<lambda>l. (l, Number (f l))) ks) k x =
     map (\<lambda>l. (l, Number (g l))) (if k \<in> set ks then ks else ks @ [k])"
proof (cases "k \<in> set ks")
  case True
  have "add_to_slot op z (map (\<lambda>l. (l, Number (f l))) ks) k x =
      map (\<lambda>l. (l, if l = k then Number (op (f k) x) else Number (f l))) ks"
    using True assms(2) by (simp add: add_to_slot_def map_of_keys update_present)
  also have "\<dots> = map (\<lambda>l. (l, Number (g l))) ks"
    by (rule map_cong) (auto simp add: assms(3))
  finally show ?thesis
    using True by simp
next
  case False
  have np: "k \<noteq> ''__proto__''"
    using assms(1) by (auto simp add: inherited_def)
  have a: "add_to_slot op z (map (\<lambda>l. (l, Number (f l))) ks) k x =
      map (\<lambda>l. (l, Number (f l))) ks @ [(k, Number (op z x))]"
    using False assms(1) np by (simp add: add_to_slot_def map_of_keys update_new)
  show ?thesis
    using False by (auto simp add: a assms(3) assms(4))
qed

lemma tally_append:
  "tally (xs @ ys) votes confidenceSums =
     (case tally xs votes confidenceSums of (v, s) \<Rightarrow> tally ys v s)"
  by (induction xs arbitrary: votes confidenceSums) simp_all

lemma tally_plain:
  "\<forall>p\<in>set buf. label p \<notin> set inherited \<Longrightarrow>
   tally buf [] [] =
     (map (\<lambda>l. (l, Number (votes_for l buf))) (first_seen (map label buf)),
      map (\<lambda>l. (l, Number (confidence_sum l buf))) (first_seen (map label buf)))"
proof (induction buf rule: rev_induct)
  case Nil
  then show ?case by (simp add: first_seen_def)
next
  case (snoc p buf)
  let ?ks = "first_seen (map label buf)"
  have plain: "label p \<notin> set inherited"
    using snoc.prems by simp
  have ih: "tally buf [] [] =
     (map (\<lambda>l. (l, Number (votes_for l buf))) ?ks,
      map (\<lambda>l. (l, Number (confidence_sum l buf))) ?ks)"
    using snoc by simp
  have ks: "first_seen (map label (buf @ [p])) =
      (if label p \<in> set ?ks then ?ks else ?ks @ [label p])"
    by (simp add: first_seen_snoc)
  have v: "add_to_slot (+) 0 (map (\<lambda>l. (l, Number (votes_for l buf))) ?ks) (label p) 1 =
      map (\<lambda>l. (l, Number (votes_for l (buf @ [p])))) (first_seen (map label (buf @ [p])))"
    unfolding ks
    by (rule add_to_slot_plain [OF plain]) (auto simp add: votes_for_snoc votes_for_absent)
  have s: "add_to_slot add_confidence (Num 0)
        (map (\<lambda>l. (l, Number (confidence_sum l buf))) ?ks) (label p) (read_confidence p) =
      map (\<lambda>l. (l, Number (confidence_sum l (buf @ [p])))) (first_seen (map label (buf @ [p])))"
    unfolding ks
    by (rule add_to_slot_plain [OF plain])
      (auto simp add: confidence_sum_snoc confidence_sum_absent add_confidence_sum)
  show ?case
    by (simp only: tally_append ih prod.case tally.simps v s)
qed


lemma insort_key_map:
  "insort_key k (g x) (map g ys) = map g (insort_key (\<lambda>y. k (g y)) x ys)"
  by (induction ys) simp_all

lemma sort_key_map:
  "sort_key k (map g xs) = map g (sort_key (\<lambda>y. k (g y)) xs)"
  by (induction xs) (simp_all add: insort_key_map)

lemma js_entries_keys:
  "js_entries (map (\<lambda>l. (l, f l)) ks) = map (\<lambda>l. (l, f l)) (key_order ks)"
  by (simp add: js_entries_def key_order_def filter_map comp_def sort_key_map)

lemma set_key_order [simp]: "set (key_order ks) = set ks"
  by (auto simp add: key_order_def)

lemma key_order_no_index:
  "\<forall>k\<in>set ks. \<not> is_array_index k \<Longrightarrow> key_order ks = ks"
  by (simp add: key_order_def filter_empty_conv filter_id_conv)

lemma max_count_exists:
  assumes "ks \<noteq> []"
  shows "\<exists>m\<in>set ks. \<forall>l'\<in>set ks. (c::'a \<Rightarrow> nat) l' \<le> c m"
proof -
  have "Max (c ` set ks) \<in> c ` set ks"
    using assms by (intro Max_in) simp_all
  then obtain m where m: "m \<in> set ks" "c m = Max (c ` set ks)"
    by auto
  have "\<forall>l'\<in>set ks. c l' \<le> c m"
    using m by simp
  then show ?thesis
    using m(1) by auto
qed

lemma find_best_counts:
  "find_best (map (\<lambda>l. (l, Number (c l))) ks) bestLabel bestVotes =
     (case find (\<lambda>l. bestVotes < c l \<and> (\<forall>l'\<in>set ks. c l' \<le> c l)) ks of
        None \<Rightarrow> (bestLabel, bestVotes)
      | Some w \<Rightarrow> (w, c w))"
proof (induction ks arbitrary: bestLabel bestVotes)
  case Nil
  then show ?case by simp
next
  case (Cons k ks)
  show ?case
  proof (cases "bestVotes < c k")
    case True
    note above = True
    show ?thesis
    proof (cases "\<forall>l'\<in>set ks. c l' \<le> c k")
      case True
      then have "find (\<lambda>l. c k < c l \<and> (\<forall>l'\<in>set ks. c l' \<le> c l)) ks = None"
        by (auto simp add: find_None_iff)
      then show ?thesis
        using above True by (simp add: Cons.IH)
    next
      case False
      then obtain m where m: "m \<in> set ks" "c k < c m"
        by (auto simp add: not_le)
      have "find (\<lambda>l. c k < c l \<and> (\<forall>l'\<in>set ks. c l' \<le> c l)) ks =
          find (\<lambda>l. bestVotes < c l \<and> (\<forall>l'\<in>set (k # ks). c l' \<le> c l)) ks"
      proof (rule find_cong [OF refl])
        fix x assume "x \<in> set ks"
        show "(c k < c x \<and> (\<forall>l'\<in>set ks. c l' \<le> c x)) =
            (bestVotes < c x \<and> (\<forall>l'\<in>set (k # ks). c l' \<le> c x))"
          using above m by (auto simp add: less_le_trans dest: bspec [where x = m])
      qed
      moreover have "find (\<lambda>l. c k < c l \<and> (\<forall>l'\<in>set ks. c l' \<le> c l)) ks \<noteq> None"
      proof -
        have "ks \<noteq> []"
          using m(1) by auto
        then obtain mx where mx: "mx \<in> set ks" "\<forall>l'\<in>set ks. c l' \<le> c mx"
          using max_count_exists [of ks c] by blast
        then have "c k < c mx"
          using m by (auto simp add: less_le_trans)
        then show ?thesis
          using mx by (auto simp add: find_None_iff)
      qed
      ultimately show ?thesis
        using above False by (auto simp add: Cons.IH)
    qed
  next
    case False
    have "find (\<lambda>l. bestVotes < c l \<and> (\<forall>l'\<in>set ks. c l' \<le> c l)) ks =
        find (\<lambda>l. bestVotes < c l \<and> (\<forall>l'\<in>set (k # ks). c l' \<le> c l)) ks"
    proof (rule find_cong [OF refl])
      fix x assume "x \<in> set ks"
      show "(bestVotes < c x \<and> (\<forall>l'\<in>set ks. c l' \<le> c x)) =
          (bestVotes < c x \<and> (\<forall>l'\<in>set (k # ks). c l' \<le> c x))"
        using False by auto
    qed
    then show ?thesis
      using False by (simp add: Cons.IH)
  qed
qed

lemma find_max_exists:
  assumes "ks \<noteq> []"
  shows "\<exists>w. find (\<lambda>l. \<forall>l'\<in>set ks. (c::'a \<Rightarrow> nat) l' \<le> c l) ks = Some w"
proof -
  have "find (\<lambda>l. \<forall>l'\<in>set ks. c l' \<le> c l) ks \<noteq> None"
    using max_count_exists [OF assms, of c] by (auto simp add: find_None_iff)
  then show ?thesis by auto
qed


lemma find_Some_in_set: "find P xs = Some x \<Longrightarrow> x \<in> set xs \<and> P x"
  by (induction xs) (auto split: if_splits)

text \<open>
  Claim C3, amended. For every non-empty buffer none of whose labels is the name of a
  property inherited from \<open>Object.prototype\<close>, the verdict's label is a label of the
  buffer with the highest vote count; among the labels with that count it is the first in
  the order of \<open>Object.entries\<close>: labels that are array indices come first in ascending
  numeric order, the other labels follow in first-seen buffer order, so when no label is
  an array index the order is first-seen order. The confidence is the mean of the
  confidences of exactly the samples bearing the winning label, as double arithmetic
  computes it: the confidences added to 0 in buffer order, each sum rounded to the nearest
  double, and the total divided by the vote count, the quotient rounded. \<open>isDefective\<close>,
  \<open>defectType\<close> and \<open>status\<close> follow from whether the label is \<open>ok\<close>.
\<close>

theorem majority_vote:
  assumes "buf \<noteq> []" and "\<forall>p\<in>set buf. label p \<notin> set inherited"
  shows "(\<exists>w. winner buf = Some w \<and> w \<in> label ` set buf \<and>
          (\<forall>l. votes_for l buf \<le> votes_for w buf) \<and>
          aggregate buf =
            Some \<lparr>res_label = w, res_confidence = mean_confidence w buf,
                  isDefective = (w \<noteq> ''ok''),
                  defectType = (if w \<noteq> ''ok'' then Some w else None),
                  status = (if w = ''ok'' then ''ok'' else ''defective'')\<rparr>) \<and>
         ((\<forall>p\<in>set buf. \<not> is_array_index (label p)) \<longrightarrow>
          key_order (first_seen (map label buf)) = first_seen (map label buf))"
proof -
  let ?fs = "first_seen (map label buf)"
  let ?ks = "key_order ?fs"
  let ?c = "\<lambda>l. votes_for l buf"
  have set_ks: "set ?ks = label ` set buf"
    by simp
  have ne: "?ks \<noteq> []"
    using assms(1) set_ks by (metis empty_is_image set_empty)
  have tally: "tally buf [] [] =
      (map (\<lambda>l. (l, Number (votes_for l buf))) ?fs,
       map (\<lambda>l. (l, Number (confidence_sum l buf))) ?fs)"
    using assms(2) by (rule tally_plain)
  obtain w where w: "find (\<lambda>l. \<forall>l'\<in>set ?ks. ?c l' \<le> ?c l) ?ks = Some w"
    using find_max_exists [OF ne, of ?c] by blast
  have w_in: "w \<in> set ?ks" and w_max: "\<forall>l'\<in>set ?ks. ?c l' \<le> ?c w"
    using find_Some_in_set [OF w] by simp_all
  have w_label: "w \<in> label ` set buf"
    using w_in by simp
  have positive: "find (\<lambda>l. 0 < ?c l \<and> (\<forall>l'\<in>set ?ks. ?c l' \<le> ?c l)) ?ks =
      find (\<lambda>l. \<forall>l'\<in>set ?ks. ?c l' \<le> ?c l) ?ks"
  proof (rule find_cong [OF refl])
    fix x assume "x \<in> set ?ks"
    then have "0 < ?c x"
      by (simp add: votes_for_positive)
    then show "(0 < ?c x \<and> (\<forall>l'\<in>set ?ks. ?c l' \<le> ?c x)) = (\<forall>l'\<in>set ?ks. ?c l' \<le> ?c x)"
      by simp
  qed
  have best: "find_best (js_entries (map (\<lambda>l. (l, Number (votes_for l buf))) ?fs)) ''ok'' 0 =
      (w, votes_for w buf)"
    by (simp only: js_entries_keys find_best_counts positive w option.case)
  have win: "winner buf = Some w"
    using w by (simp add: winner_def list_all_iff)
  have all_max: "\<forall>l. votes_for l buf \<le> votes_for w buf"
  proof
    fix l
    show "votes_for l buf \<le> votes_for w buf"
    proof (cases "l \<in> label ` set buf")
      case True
      then show ?thesis using w_max by auto
    next
      case False
      then show ?thesis by (simp add: votes_for_absent)
    qed
  qed
  have w_fs: "w \<in> set ?fs"
    using w_label by simp
  have agg: "aggregate buf = Some (make_verdict w (mean_confidence w buf))"
    using assms(1) w_fs
    by (simp add: aggregate_def tally best map_of_keys quotient_def mean_confidence_def)
  have order: "(\<forall>p\<in>set buf. \<not> is_array_index (label p)) \<longrightarrow> ?ks = ?fs"
    by (auto intro!: key_order_no_index)
  show ?thesis
    using win w_label all_max agg order by (simp add: make_verdict_def)
qed

text \<open>
  The buffer of the claim: \<open>[ok(0.9), scratch(0.8), scratch(0.7)]\<close> yields \<open>scratch\<close>, 0.75,
  defective.
\<close>

theorem majority_vote_witness:
  "list_all (\<lambda>p. label p \<notin> set inherited)
     [\<lparr>label = ''ok'', confidence = 0.9\<rparr>, \<lparr>label = ''scratch'', confidence = 0.8\<rparr>,
      \<lparr>label = ''scratch'', confidence = 0.7\<rparr>] \<and>
   winner [\<lparr>label = ''ok'', confidence = 0.9\<rparr>, \<lparr>label = ''scratch'', confidence = 0.8\<rparr>,
      \<lparr>label = ''scratch'', confidence = 0.7\<rparr>] = Some ''scratch'' \<and>
   aggregate [\<lparr>label = ''ok'', confidence = 0.9\<rparr>, \<lparr>label = ''scratch'', confidence = 0.8\<rparr>,
      \<lparr>label = ''scratch'', confidence = 0.7\<rparr>] =
     Some \<lparr>res_label = ''scratch'', res_confidence = Num 0.75, isDefective = True,
           defectType = Some ''scratch'', status = ''defective''\<rparr>"
proof -
  let ?buf = "[\<lparr>label = ''ok'', confidence = 0.9\<rparr>, \<lparr>label = ''scratch'', confidence = 0.8\<rparr>,
      \<lparr>label = ''scratch'', confidence = 0.7\<rparr>]"
  have plain: "\<forall>p\<in>set ?buf. label p \<notin> set inherited"
    by (simp add: inherited_def)
  have win: "winner ?buf = Some ''scratch''"
    by (simp add: winner_def first_seen_def key_order_def is_array_index_def votes_for_def)
  have mean: "mean_confidence ''scratch'' ?buf = Num 0.75"
    by (simp add: mean_confidence_def confidence_sum_def votes_for_def read_confidence_def
        js_add_def js_div_def nearest_literals to_double_examples)
  obtain w where w: "winner ?buf = Some w"
    "aggregate ?buf =
       Some \<lparr>res_label = w, res_confidence = mean_confidence w ?buf,
             isDefective = (w \<noteq> ''ok''),
             defectType = (if w \<noteq> ''ok'' then Some w else None),
             status = (if w = ''ok'' then ''ok'' else ''defective'')\<rparr>"
    using majority_vote [of ?buf, OF _ plain] by blast
  have "w = ''scratch''"
    using w(1) win by simp
  then show ?thesis
    using w(2) win mean plain by (simp add: list_all_iff)
qed

text \<open>
  The mean is the program's, not the exact one. Two samples \<open>x(0.1)\<close> and \<open>x(0.2)\<close> give
  \<open>0.15000000000000002\<close>, the double \<open>1351079888211149 / 2^53\<close>; three samples \<open>x(0.7)\<close>
  give \<open>0.6999999999999998\<close>, the double \<open>6305039478318693 / 2^53\<close>, not the double
  \<open>0.7\<close>.
\<close>

lemma aggregate_rounds:
  "aggregate [\<lparr>label = ''x'', confidence = 0.1\<rparr>, \<lparr>label = ''x'', confidence = 0.2\<rparr>] =
     Some \<lparr>res_label = ''x'', res_confidence = Num (1351079888211149 / 9007199254740992),
           isDefective = True, defectType = Some ''x'', status = ''defective''\<rparr>"
  by (simp add: aggregate_def add_to_slot_def add_confidence_def or_zero_def inherited_def
      js_entries_def is_array_index_def quotient_def make_verdict_def read_confidence_def
      js_add_def js_div_def nearest_literals to_double_examples)

lemma aggregate_rounds_equal_samples:
  "aggregate [\<lparr>label = ''x'', confidence = 0.7\<rparr>, \<lparr>label = ''x'', confidence = 0.7\<rparr>,
              \<lparr>label = ''x'', confidence = 0.7\<rparr>] =
     Some \<lparr>res_label = ''x'', res_confidence = Num (6305039478318693 / 9007199254740992),
           isDefective = True, defectType = Some ''x'', status = ''defective''\<rparr>"
  by (simp add: aggregate_def add_to_slot_def add_confidence_def or_zero_def inherited_def
      js_entries_def is_array_index_def quotient_def make_verdict_def read_confidence_def
      js_add_def js_div_def nearest_literals to_double_examples)

text \<open>
  The claim as stated breaks ties by first-seen order for every buffer. With one vote each
  for \<open>2\<close> and \<open>1\<close>, seen in this order, the verdict is \<open>1\<close>.
\<close>

theorem tie_broken_by_index_order:
  "votes_for ''2'' [\<lparr>label = ''2'', confidence = 3 / 4\<rparr>, \<lparr>label = ''1'', confidence = 1 / 2\<rparr>] = 1 \<and>
   votes_for ''1'' [\<lparr>label = ''2'', confidence = 3 / 4\<rparr>, \<lparr>label = ''1'', confidence = 1 / 2\<rparr>] = 1 \<and>
   first_seen (map label [\<lparr>label = ''2'', confidence = 3 / 4\<rparr>, \<lparr>label = ''1'', confidence = 1 / 2\<rparr>]) =
     [''2'', ''1''] \<and>
   aggregate [\<lparr>label = ''2'', confidence = 3 / 4\<rparr>, \<lparr>label = ''1'', confidence = 1 / 2\<rparr>] =
     Some \<lparr>res_label = ''1'', res_confidence = Num (1 / 2), isDefective = True,
           defectType = Some ''1'', status = ''defective''\<rparr>"
  by (simp add: votes_for_def first_seen_def aggregate_def add_to_slot_def add_confidence_def
      or_zero_def inherited_def js_entries_def is_array_index_def index_value_def quotient_def
      make_verdict_def read_confidence_def js_add_def js_div_def nearest_literals
      to_double_examples)

section \<open>Labels that name inherited properties\<close>

text \<open>
  Claim C10 says that the label of the verdict of a non-empty buffer is the label of one
  of its samples, the default \<open>ok\<close> of the scan included. The code does otherwise on the
  buffer that holds one sample labelled \<open>constructor\<close>: the vote stored for it is a string,
  no entry beats the initial \<open>bestVotes = 0\<close>, and the verdict is \<open>ok\<close>, not defective, with
  confidence \<open>NaN\<close>.
\<close>

theorem inherited_label_reported_ok:
  "aggregate [\<lparr>label = ''constructor'', confidence = 0.9\<rparr>] =
     Some \<lparr>res_label = ''ok'', res_confidence = NaN, isDefective = False,
           defectType = None, status = ''ok''\<rparr>"
  by (simp add: aggregate_def add_to_slot_def inherited_def js_entries_def is_array_index_def
      quotient_def make_verdict_def)

end
